theory Spec2Isabelle
  imports Main "HOL-Library.Sublist"
begin

section \<open>Constants of main.c\<close>

definition ALPHABET_SIZE :: nat where
  "ALPHABET_SIZE = 26"

definition MAX_WORD_LENGTH :: nat where
  "MAX_WORD_LENGTH = 100"

definition MAX_SUGGESTIONS :: nat where
  "MAX_SUGGESTIONS = 10"

definition MAX_WORDS :: nat where
  "MAX_WORDS = 1000"

definition MAX_LEVENSHTEIN_DISTANCE :: int where
  "MAX_LEVENSHTEIN_DISTANCE = 2"

definition INT_MAX :: int where
  "INT_MAX = 2147483647"

section \<open>Characters and words\<close>

text \<open>
  \<open>tolower\<close> and \<open>isalpha\<close> of the C locale, on the byte value of the character.
  \<open>toLowerCase\<close> rewrites a string in place; \<open>strtolower\<close> applies it to a copy.
  Copying a string (\<open>strdup\<close>) and allocating a node (\<open>calloc\<close>) are taken to
  succeed throughout; only the two row allocations of \<open>levenshteinDistance\<close> are
  modelled as fallible.
\<close>

definition tolower :: "char \<Rightarrow> char" where
  "tolower c = (let n = of_char c :: nat in if 65 \<le> n \<and> n \<le> 90 then char_of (n + 32) else c)"

definition isalpha :: "char \<Rightarrow> bool" where
  "isalpha c = (let n = of_char c :: nat in (65 \<le> n \<and> n \<le> 90) \<or> (97 \<le> n \<and> n \<le> 122))"

definition toLowerCase :: "string \<Rightarrow> string" where
  "toLowerCase str = map tolower str"

definition strtolower :: "string \<Rightarrow> string" where
  "strtolower str = toLowerCase str"

fun isValidWord :: "string \<Rightarrow> bool" where
  "isValidWord [] = True"
| "isValidWord (c # str) = (if \<not> isalpha c then False else isValidWord str)"

section \<open>The letter tree\<close>

text \<open>
  The struct \<open>TrieNode\<close>: the array of \<open>ALPHABET_SIZE\<close> child pointers (\<open>None\<close> is
  the null pointer), the end-of-word flag, the owned copy of the original spelling (\<open>None\<close>
  is the null pointer) and the frequency. The tree is owned by its root and never shared,
  so a pointer to a node is modelled by the node.
\<close>

datatype TrieNode = TrieNode
  (children: "TrieNode option list")
  (isEndOfWord: bool)
  (originalWord: "string option")
  (frequency: int)

text \<open>
  Indexing the child array with a value outside \<open>0..25\<close> is undefined behaviour in C, as
  is handing a null string to \<open>strdup\<close>; the model returns \<open>Inl Undefined_behaviour\<close>
  there.
\<close>

datatype error = Undefined_behaviour

definition createTrieNode :: TrieNode where
  "createTrieNode = TrieNode (replicate ALPHABET_SIZE None) False None 0"

text \<open>
  The loop of \<open>insertWord\<close> walks down the lower-cased word, creating the missing
  children, and then updates the node it ends on. The walk is written as a recursion that
  returns the updated subtree. \<open>word\<close> is the spelling as submitted.
\<close>

fun insertWord_from :: "TrieNode \<Rightarrow> string \<Rightarrow> string \<Rightarrow> int \<Rightarrow> error + TrieNode" where
  "insertWord_from (TrieNode ch e w f) [] word freq =
     Inr (if w = None \<or> freq > f then TrieNode ch True (Some word) freq
          else TrieNode ch True w f)"
| "insertWord_from (TrieNode ch e w f) (c # lowerWord) word freq =
     (let index = int (of_char c) - 97 in
      if index < 0 \<or> int ALPHABET_SIZE \<le> index then Inl Undefined_behaviour
      else
        case insertWord_from
               (case ch ! nat index of None \<Rightarrow> createTrieNode | Some child \<Rightarrow> child)
               lowerWord word freq of
          Inl err \<Rightarrow> Inl err
        | Inr child \<Rightarrow> Inr (TrieNode (ch[nat index := Some child]) e w f))"

definition insertWord :: "TrieNode \<Rightarrow> string \<Rightarrow> int \<Rightarrow> error + TrieNode" where
  "insertWord root word freq =
     (if word = [] then Inr root else insertWord_from root (strtolower word) word freq)"

text \<open>A store is what a sequence of \<open>insertWord\<close> calls makes of the empty root.\<close>

fun insertWords :: "TrieNode \<Rightarrow> (string \<times> int) list \<Rightarrow> error + TrieNode" where
  "insertWords root [] = Inr root"
| "insertWords root ((word, freq) # rest) =
     (case insertWord root word freq of
        Inl err \<Rightarrow> Inl err
      | Inr root' \<Rightarrow> insertWords root' rest)"

text \<open>
  The walk along a lower-cased prefix, as in \<open>searchWordsByPrefix\<close> and in case 1 of
  \<open>main\<close>: \<open>Inr None\<close> when a child is missing, \<open>Inr (Some node)\<close> for the node
  reached.
\<close>

fun walk :: "TrieNode \<Rightarrow> string \<Rightarrow> error + TrieNode option" where
  "walk current [] = Inr (Some current)"
| "walk current (c # lowerPrefix) =
     (let index = int (of_char c) - 97 in
      if index < 0 \<or> int ALPHABET_SIZE \<le> index then Inl Undefined_behaviour
      else
        case children current ! nat index of
          None \<Rightarrow> Inr None
        | Some child \<Rightarrow> walk child lowerPrefix)"

section \<open>Suggestion ranking\<close>

text \<open>
  The struct \<open>Suggestion\<close>. A \<open>SuggestionList\<close> of the source is an array of
  \<open>MAX_SUGGESTIONS\<close> cells with a \<open>count\<close>; the cells from \<open>count\<close> on are never read
  (\<open>addSuggestion\<close> writes cell \<open>count\<close> before it increments \<open>count\<close>, and reads all
  ten cells only once \<open>count\<close> is ten), so the list is modelled by its first \<open>count\<close>
  cells and \<open>count\<close> is the length.
\<close>

record Suggestion =
  word :: string
  distance :: int
  frequency :: int

type_synonym SuggestionList = "Suggestion list"

definition initSuggestionList :: SuggestionList where
  "initSuggestionList = []"

text \<open>The loop of \<open>addSuggestion\<close> that looks for the cell to replace, \<open>i\<close> from 1 to 9.\<close>

definition find_worst :: "SuggestionList \<Rightarrow> nat" where
  "find_worst list =
     foldl (\<lambda>worst_idx i.
              if distance (list ! i) > distance (list ! worst_idx) \<or>
                 (distance (list ! i) = distance (list ! worst_idx) \<and>
                  frequency (list ! i) < frequency (list ! worst_idx))
              then i else worst_idx)
           0 [1..<MAX_SUGGESTIONS]"

definition addSuggestion :: "SuggestionList \<Rightarrow> string \<Rightarrow> int \<Rightarrow> int \<Rightarrow> SuggestionList" where
  "addSuggestion list w d f =
     (if length list < MAX_SUGGESTIONS
      then list @ [\<lparr>word = w, distance = d, frequency = f\<rparr>]
      else
        let worst_idx = find_worst list in
        if d < distance (list ! worst_idx) \<or>
           (d = distance (list ! worst_idx) \<and> f > frequency (list ! worst_idx))
        then list[worst_idx := \<lparr>word = w, distance = d, frequency = f\<rparr>]
        else list)"

text \<open>
  \<open>compareSuggestions\<close> returns differences of C \<open>int\<close>s. A difference outside the
  32-bit range is undefined behaviour in C; the model takes the two's complement result.
\<close>

definition wrap_int32 :: "int \<Rightarrow> int" where
  "wrap_int32 x = (x + 2147483648) mod 4294967296 - 2147483648"

definition compareSuggestions :: "Suggestion \<Rightarrow> Suggestion \<Rightarrow> int" where
  "compareSuggestions sa sb =
     (if distance sa \<noteq> distance sb then wrap_int32 (distance sa - distance sb)
      else wrap_int32 (frequency sb - frequency sa))"

text \<open>
  \<open>qsort\<close> belongs to the C library, which fixes its result only up to the order of
  elements that compare equal. It is modelled by insertion sort: an element goes before
  the first element it does not compare greater than.
\<close>

fun qsort_insert :: "('a \<Rightarrow> 'a \<Rightarrow> int) \<Rightarrow> 'a \<Rightarrow> 'a list \<Rightarrow> 'a list" where
  "qsort_insert compar x [] = [x]"
| "qsort_insert compar x (y # ys) =
     (if compar x y \<le> 0 then x # y # ys else y # qsort_insert compar x ys)"

definition qsort :: "('a \<Rightarrow> 'a \<Rightarrow> int) \<Rightarrow> 'a list \<Rightarrow> 'a list" where
  "qsort compar base = foldr (qsort_insert compar) base []"

section \<open>Prefix search\<close>

text \<open>
  \<open>collectSuggestions\<close> offers the word of every end-of-word node below \<open>node\<close>, the
  node first and then its children in the order of the array. The loop over the 26
  cells is the second function.
\<close>

fun collectSuggestions :: "TrieNode \<Rightarrow> string \<Rightarrow> SuggestionList \<Rightarrow> error + SuggestionList"
  and collectSuggestions_loop ::
    "TrieNode option list \<Rightarrow> string \<Rightarrow> SuggestionList \<Rightarrow> error + SuggestionList" where
  "collectSuggestions (TrieNode ch e w f) pfx suggestions =
     (if e then
        (case w of
           None \<Rightarrow> Inl Undefined_behaviour
         | Some original \<Rightarrow>
             collectSuggestions_loop ch pfx (addSuggestion suggestions original 0 f))
      else collectSuggestions_loop ch pfx suggestions)"
| "collectSuggestions_loop [] pfx suggestions = Inr suggestions"
| "collectSuggestions_loop (None # rest) pfx suggestions =
     collectSuggestions_loop rest pfx suggestions"
| "collectSuggestions_loop (Some child # rest) pfx suggestions =
     (case collectSuggestions child pfx suggestions of
        Inl err \<Rightarrow> Inl err
      | Inr suggestions' \<Rightarrow> collectSuggestions_loop rest pfx suggestions')"

text \<open>What \<open>searchWordsByPrefix\<close> prints: the message, or the numbered suggestions.\<close>

datatype search_output = No_suggestions_found | Suggestions_for "Suggestion list"

definition searchWordsByPrefix :: "TrieNode \<Rightarrow> string \<Rightarrow> error + search_output" where
  "searchWordsByPrefix root pfx =
     (case walk root (strtolower pfx) of
        Inl err \<Rightarrow> Inl err
      | Inr None \<Rightarrow> Inr No_suggestions_found
      | Inr (Some current) \<Rightarrow>
          (case collectSuggestions current pfx initSuggestionList of
             Inl err \<Rightarrow> Inl err
           | Inr suggestions \<Rightarrow>
               let sorted = qsort compareSuggestions suggestions in
               if length sorted = 0 then Inr No_suggestions_found
               else Inr (Suggestions_for (take MAX_SUGGESTIONS sorted))))"

section \<open>Edit distance\<close>

text \<open>
  \<open>levenshteinDistance\<close> with its two rows. \<open>prev_ok\<close> and \<open>curr_ok\<close> say whether
  the two \<open>malloc\<close> calls returned a row. The lengths are C \<open>int\<close>s; the callers pass
  words of fewer than \<open>MAX_WORD_LENGTH\<close> characters, so the arithmetic stays far from
  \<open>INT_MAX\<close> and is written on unbounded integers. The fresh \<open>curr\<close> row has
  indeterminate contents; every cell of it is written before it is read, and the model
  starts it at zero.
\<close>

definition row_cell :: "string \<Rightarrow> string \<Rightarrow> nat \<Rightarrow> int list \<Rightarrow> int list \<Rightarrow> nat \<Rightarrow> int list" where
  "row_cell s t i prev_row curr_row j =
     (let cost = (if s ! (i - 1) = t ! (j - 1) then 0 else 1) in
      curr_row[j := (if prev_row ! j + 1 < curr_row ! (j - 1) + 1
                     then (if prev_row ! j + 1 < prev_row ! (j - 1) + cost
                           then prev_row ! j + 1 else prev_row ! (j - 1) + cost)
                     else (if curr_row ! (j - 1) + 1 < prev_row ! (j - 1) + cost
                           then curr_row ! (j - 1) + 1 else prev_row ! (j - 1) + cost))])"

definition fill_row :: "string \<Rightarrow> string \<Rightarrow> nat \<Rightarrow> int list \<Rightarrow> int list \<Rightarrow> int list" where
  "fill_row s t i prev_row curr_row =
     foldl (row_cell s t i prev_row) (curr_row[0 := int i]) [1..<length t + 1]"

definition levenshteinDistance :: "bool \<Rightarrow> bool \<Rightarrow> string \<Rightarrow> string \<Rightarrow> int" where
  "levenshteinDistance prev_ok curr_ok s t =
     (let lenS = length s; lenT = length t in
      if \<not> prev_ok \<or> \<not> curr_ok then INT_MAX
      else
        let prev_row = map int [0..<lenT + 1];
            curr_row = replicate (lenT + 1) 0;
            (prev_row, curr_row) =
              foldl (\<lambda>(prev_row, curr_row) i. (fill_row s t i prev_row curr_row, prev_row))
                    (prev_row, curr_row) [1..<lenS + 1]
        in prev_row ! lenT)"

section \<open>Dictionary and spelling correction\<close>

text \<open>
  A \<open>Dictionary\<close> is an array of \<open>MAX_WORDS\<close> strings with a \<open>count\<close>, modelled by
  the list of its first \<open>count\<close> strings.
\<close>

type_synonym Dictionary = "string list"

fun collectAllWords :: "TrieNode \<Rightarrow> Dictionary \<Rightarrow> Dictionary"
  and collectAllWords_loop :: "TrieNode option list \<Rightarrow> Dictionary \<Rightarrow> Dictionary" where
  "collectAllWords (TrieNode ch e w f) dict =
     collectAllWords_loop ch
       (if e \<and> w \<noteq> None \<and> length dict < MAX_WORDS then dict @ [the w] else dict)"
| "collectAllWords_loop [] dict = dict"
| "collectAllWords_loop (None # rest) dict = collectAllWords_loop rest dict"
| "collectAllWords_loop (Some child # rest) dict =
     collectAllWords_loop rest (collectAllWords child dict)"

text \<open>
  \<open>suggestSimilarWords\<close> returns the suggestions it prints (none for an empty
  dictionary, where it returns at once, and none under "No similar words found").
  \<open>alloc i\<close> says whether the two rows could be allocated for dictionary entry \<open>i\<close>.
\<close>

definition suggestSimilarWords :: "(nat \<Rightarrow> bool \<times> bool) \<Rightarrow> string \<Rightarrow> Dictionary \<Rightarrow> Suggestion list" where
  "suggestSimilarWords alloc input dict =
     (if length dict = 0 then []
      else
        let lowerInput = strtolower input;
            suggestions =
              foldl (\<lambda>suggestions i.
                       let lowerDictWord = strtolower (dict ! i);
                           d = levenshteinDistance (fst (alloc i)) (snd (alloc i))
                                 lowerInput lowerDictWord
                       in if d \<le> MAX_LEVENSHTEIN_DISTANCE
                          then addSuggestion suggestions (dict ! i) d 0
                          else suggestions)
                    initSuggestionList [0..<length dict];
            sorted = qsort compareSuggestions suggestions
        in take MAX_SUGGESTIONS sorted)"

section \<open>Listing all words\<close>

text \<open>
  Case 2 of \<open>main\<close> collects the words into a fresh \<open>Dictionary\<close> and sorts the array
  of string pointers with \<open>qsort\<close>, passing \<open>strcmp\<close> itself as the comparison function.
  \<open>qsort\<close> hands the comparison function the addresses of two array cells, so \<open>strcmp\<close>
  reads the bytes of the two pointers stored there, not the words they point to. The
  model is for a little-endian machine with 8-byte pointers: \<open>strdup_addr k\<close> is the
  address returned by the \<open>k\<close>-th \<open>strdup\<close> of \<open>collectAllWords\<close>, a cell holds its
  eight bytes from the lowest, and \<open>strcmp\<close> reads them up to the first zero byte
  (addresses below \<open>2 ^ 56\<close> have one).
\<close>

fun strcmp :: "nat list \<Rightarrow> nat list \<Rightarrow> int" where
  "strcmp [] [] = 0"
| "strcmp [] (b # bs) = - int b"
| "strcmp (a # as) [] = int a"
| "strcmp (a # as) (b # bs) = (if a \<noteq> b then int a - int b else strcmp as bs)"

definition pointer_bytes :: "nat \<Rightarrow> nat list" where
  "pointer_bytes p = map (\<lambda>k. p div 256 ^ k mod 256) [0..<8]"

definition cell_as_string :: "nat \<Rightarrow> nat list" where
  "cell_as_string p = takeWhile (\<lambda>b. b \<noteq> 0) (pointer_bytes p)"

definition show_all_words :: "(nat \<Rightarrow> nat) \<Rightarrow> TrieNode \<Rightarrow> string list" where
  "show_all_words strdup_addr root =
     (let allWords = collectAllWords root [];
          cells = zip (map strdup_addr [0..<length allWords]) allWords;
          sorted = qsort (\<lambda>a b. strcmp (cell_as_string (fst a)) (cell_as_string (fst b))) cells
      in map snd sorted)"

section \<open>The program around the store\<close>

text \<open>
  \<open>main\<close> keeps the root of the tree and the dictionary collected once after the words
  were read. One round of its menu loop is a step on that state which also yields what
  was printed.
\<close>

record program_state =
  main_root :: TrieNode
  main_dict :: Dictionary

datatype menu_choice = Search_by_prefix string | Show_all_words | Exit_program | Other_choice

datatype printed =
    Invalid_prefix
  | Prefix_suggestions search_output
  | Spell_correction "Suggestion list"
  | All_words "string list"
  | Exiting
  | Invalid_choice

text \<open>Reading the words: a token that is too long or not alphabetic is asked again.\<close>

fun main_read_words :: "TrieNode \<Rightarrow> (string \<times> int) list \<Rightarrow> error + TrieNode" where
  "main_read_words r [] = Inr r"
| "main_read_words r ((input, freq) # rest) =
     (if length input \<ge> MAX_WORD_LENGTH \<or> \<not> isValidWord input then main_read_words r rest
      else
        case insertWord r input freq of
          Inl err \<Rightarrow> Inl err
        | Inr r' \<Rightarrow> main_read_words r' rest)"

definition main_start :: "(string \<times> int) list \<Rightarrow> error + program_state" where
  "main_start inputs =
     (case main_read_words createTrieNode inputs of
        Inl err \<Rightarrow> Inl err
      | Inr r \<Rightarrow> Inr \<lparr>main_root = r, main_dict = collectAllWords r []\<rparr>)"

definition main_menu ::
  "(nat \<Rightarrow> bool \<times> bool) \<Rightarrow> (nat \<Rightarrow> nat) \<Rightarrow> program_state \<Rightarrow> menu_choice
     \<Rightarrow> error + program_state \<times> printed" where
  "main_menu alloc strdup_addr st choice =
     (case choice of
        Search_by_prefix pfx \<Rightarrow>
          if \<not> isValidWord pfx then Inr (st, Invalid_prefix)
          else
            (case walk (main_root st) (strtolower pfx) of
               Inl err \<Rightarrow> Inl err
             | Inr (Some current) \<Rightarrow>
                 (case searchWordsByPrefix (main_root st) pfx of
                    Inl err \<Rightarrow> Inl err
                  | Inr out \<Rightarrow> Inr (st, Prefix_suggestions out))
             | Inr None \<Rightarrow>
                 Inr (st, Spell_correction (suggestSimilarWords alloc pfx (main_dict st))))
      | Show_all_words \<Rightarrow> Inr (st, All_words (show_all_words strdup_addr (main_root st)))
      | Exit_program \<Rightarrow> Inr (st, Exiting)
      | Other_choice \<Rightarrow> Inr (st, Invalid_choice))"

text \<open>Two environments: every row allocation succeeds, or none does.\<close>

definition enough_memory :: "nat \<Rightarrow> bool \<times> bool" where
  "enough_memory i = (True, True)"

definition no_memory :: "nat \<Rightarrow> bool \<times> bool" where
  "no_memory i = (False, False)"

text \<open>
  An allocator that hands out ascending addresses 32 bytes apart, as a fresh heap does for
  short strings.
\<close>

definition ascending_addresses :: "nat \<Rightarrow> nat" where
  "ascending_addresses k = 93824992248480 + 32 * k"

section \<open>Specification-level notions\<close>

text \<open>
  One edit of a string: inserting a character, deleting one, or replacing one by a
  different one. \<open>edits n a b\<close>: \<open>n\<close> edits in a row turn \<open>a\<close> into \<open>b\<close>.
\<close>

inductive edit1 :: "string \<Rightarrow> string \<Rightarrow> bool" where
  insertion: "edit1 (xs @ ys) (xs @ c # ys)"
| deletion: "edit1 (xs @ c # ys) (xs @ ys)"
| substitution: "c \<noteq> d \<Longrightarrow> edit1 (xs @ c # ys) (xs @ d # ys)"

inductive edits :: "nat \<Rightarrow> string \<Rightarrow> string \<Rightarrow> bool" where
  edits_0: "edits 0 a a"
| edits_Suc: "edits n a b \<Longrightarrow> edit1 b c \<Longrightarrow> edits (Suc n) a c"

text \<open>The textbook recursion for the edit distance, used in the proofs only.\<close>

fun lev :: "string \<Rightarrow> string \<Rightarrow> nat" where
  "lev [] ys = length ys"
| "lev xs [] = length xs"
| "lev (x # xs) (y # ys) =
     min (min (lev xs (y # ys) + 1) (lev (x # xs) ys + 1))
         (lev xs ys + (if x = y then 0 else 1))"

definition table :: "string \<Rightarrow> string \<Rightarrow> nat \<Rightarrow> nat \<Rightarrow> int" where
  "table s t i j = int (lev (rev (take i s)) (rev (take j t)))"

text \<open>An entry \<open>a\<close> that is not ranked after \<open>b\<close> by the loop of \<open>addSuggestion\<close>.\<close>

definition not_worse :: "Suggestion \<Rightarrow> Suggestion \<Rightarrow> bool" where
  "not_worse a b \<longleftrightarrow>
     distance a \<le> distance b \<and> (distance a = distance b \<longrightarrow> frequency b \<le> frequency a)"

text \<open>
  The node at the end of a path of child indices, and the letters such a path spells.
\<close>

fun node_at :: "TrieNode \<Rightarrow> nat list \<Rightarrow> TrieNode option" where
  "node_at n [] = Some n"
| "node_at n (i # path) =
     (if i < length (children n)
      then (case children n ! i of None \<Rightarrow> None | Some child \<Rightarrow> node_at child path)
      else None)"

definition path_letters :: "nat list \<Rightarrow> string" where
  "path_letters path = map (\<lambda>i. char_of (i + 97)) path"

definition letter_index :: "char \<Rightarrow> nat" where
  "letter_index c = nat (int (of_char c) - 97)"

definition word_path :: "string \<Rightarrow> nat list" where
  "word_path w = map letter_index (strtolower w)"

text \<open>What the loop of \<open>suggestSimilarWords\<close> keeps true of every suggestion it holds.\<close>

definition fuzzy_entry :: "(nat \<Rightarrow> bool \<times> bool) \<Rightarrow> string \<Rightarrow> Dictionary \<Rightarrow> Suggestion \<Rightarrow> bool" where
  "fuzzy_entry alloc input dict s \<longleftrightarrow>
     (\<exists>i < length dict. word s = dict ! i \<and> fst (alloc i) \<and> snd (alloc i)) \<and>
     distance s = levenshteinDistance True True (strtolower input) (strtolower (word s)) \<and>
     distance s \<le> MAX_LEVENSHTEIN_DISTANCE \<and> frequency s = 0"

text \<open>
  The shape every node built by \<open>createTrieNode\<close> and \<open>insertWord\<close> has: 26 child
  cells, and the end-of-word flag set exactly when a spelling is stored.
\<close>

fun trie_inv :: "TrieNode \<Rightarrow> bool" where
  "trie_inv (TrieNode ch e w f) \<longleftrightarrow>
     length ch = ALPHABET_SIZE \<and> (e \<longleftrightarrow> w \<noteq> None) \<and>
     (\<forall>c \<in> set ch. case c of None \<Rightarrow> True | Some n \<Rightarrow> trie_inv n)"

text \<open>
  The spelling and frequency stored at the end-of-word node a path leads to, if it leads
  to one.
\<close>

fun stored :: "TrieNode \<Rightarrow> nat list \<Rightarrow> (string \<times> int) option" where
  "stored (TrieNode ch e w f) [] = (if e then map_option (\<lambda>x. (x, f)) w else None)"
| "stored (TrieNode ch e w f) (i # path) =
     (if i < length ch
      then (case ch ! i of None \<Rightarrow> None | Some child \<Rightarrow> stored child path)
      else None)"

text \<open>
  What repeated insertion of one word is to leave behind: the first pair is kept until a
  pair of strictly greater frequency arrives.
\<close>

fun keep_best :: "(string \<times> int) option \<Rightarrow> string \<times> int \<Rightarrow> (string \<times> int) option" where
  "keep_best None (w, f) = Some (w, f)"
| "keep_best (Some (w0, f0)) (w, f) = (if f > f0 then Some (w, f) else Some (w0, f0))"

text \<open>The words \<open>insertWord\<close> is specified for: not empty, letters only.\<close>

definition alphabetic :: "string \<Rightarrow> bool" where
  "alphabetic w \<longleftrightarrow> w \<noteq> [] \<and> isValidWord w"

text \<open>The insertions of one word, whatever its case, in the order they were made.\<close>

definition insertions_of :: "string \<Rightarrow> (string \<times> int) list \<Rightarrow> (string \<times> int) list" where
  "insertions_of k xs = filter (\<lambda>x. strtolower (fst x) = strtolower k) xs"

definition lower_letter :: "char \<Rightarrow> bool" where
  "lower_letter c \<longleftrightarrow> 97 \<le> (of_char c :: nat) \<and> (of_char c :: nat) \<le> 122"

text \<open>
  The suggestions a subtree can contribute to a prefix search, and those of an array of
  children.
\<close>

definition subtree_entries :: "TrieNode \<Rightarrow> Suggestion set" where
  "subtree_entries n =
     {\<lparr>word = w, distance = 0, frequency = f\<rparr> | w f. \<exists>q. stored n q = Some (w, f)}"

definition children_entries :: "TrieNode option list \<Rightarrow> Suggestion set" where
  "children_entries cs = (\<Union>c \<in> set cs. case c of None \<Rightarrow> {} | Some n \<Rightarrow> subtree_entries n)"

text \<open>Below every child there is an end-of-word node: insertion leaves no dead branch.\<close>

fun no_dead_ends :: "TrieNode \<Rightarrow> bool" where
  "no_dead_ends (TrieNode ch e w f) \<longleftrightarrow>
     (\<forall>c \<in> set ch. case c of None \<Rightarrow> True
                            | Some n \<Rightarrow> (\<exists>q. stored n q \<noteq> None) \<and> no_dead_ends n)"

text \<open>What the traversal keeps true of the list it fills.\<close>

definition collected :: "SuggestionList \<Rightarrow> Suggestion set \<Rightarrow> SuggestionList \<Rightarrow> bool" where
  "collected acc new acc' \<longleftrightarrow>
     set acc' \<subseteq> set acc \<union> new \<and>
     (length acc \<le> MAX_SUGGESTIONS \<longrightarrow> length acc' \<le> MAX_SUGGESTIONS) \<and>
     (acc' = [] \<longleftrightarrow> acc = [] \<and> new = {})"

section \<open>The store in the heap\<close>

text \<open>
  To say what a traversal leaves untouched, the tree is also modelled where the program
  keeps it: in the heap, where nodes, strings and the rows of \<open>levenshteinDistance\<close>
  are blocks reached through pointers, and where the traversals allocate, overwrite and
  free blocks of their own. A heap is the list of its blocks, a pointer is an index into
  it (\<open>None\<close> is the null pointer), a freed block is \<open>None\<close>. A block holds one object:
  a \<open>TrieNode\<close> (child pointers, end-of-word flag, pointer to the spelling, frequency),
  a character buffer, or an \<open>int\<close> array. Reading, overwriting or freeing a block that
  is not allocated, or one of the wrong kind, is undefined behaviour (\<open>Inl Undefined\<close>).
\<close>

type_synonym addr = nat

datatype obj =
    Node_obj "addr option list" bool "addr option" int
  | String_obj string
  | Row_obj "int list"

type_synonym heap = "obj option list"

datatype fault = Undefined | Fuel_exhausted

definition heap_read :: "heap \<Rightarrow> addr \<Rightarrow> obj option" where
  "heap_read h a = (if a < length h then h ! a else None)"

text \<open>
  The allocator is a parameter: \<open>pick h\<close> is the block it would like to hand out. If
  that block is free it is reused, otherwise the heap grows by a block. Allocation of
  nodes and strings is taken to succeed, as in the rest of the development.
\<close>

type_synonym allocator = "heap \<Rightarrow> addr"

definition heap_alloc :: "allocator \<Rightarrow> heap \<Rightarrow> obj \<Rightarrow> addr \<times> heap" where
  "heap_alloc pick h c =
     (let a = pick h in
      if a < length h \<and> h ! a = None then (a, h[a := Some c])
      else (length h, h @ [Some c]))"

definition heap_write :: "heap \<Rightarrow> addr \<Rightarrow> obj \<Rightarrow> fault + heap" where
  "heap_write h a c =
     (case heap_read h a of None \<Rightarrow> Inl Undefined | Some old \<Rightarrow> Inr (h[a := Some c]))"

text \<open>\<open>free\<close>: nothing happens for the null pointer.\<close>

definition heap_free :: "heap \<Rightarrow> addr option \<Rightarrow> fault + heap" where
  "heap_free h p =
     (case p of
        None \<Rightarrow> Inr h
      | Some a \<Rightarrow>
          (case heap_read h a of None \<Rightarrow> Inl Undefined | Some old \<Rightarrow> Inr (h[a := None])))"

definition read_string :: "heap \<Rightarrow> addr option \<Rightarrow> fault + string" where
  "read_string h p =
     (case p of
        None \<Rightarrow> Inl Undefined
      | Some a \<Rightarrow>
          (case heap_read h a of Some (String_obj s) \<Rightarrow> Inr s | _ \<Rightarrow> Inl Undefined))"

text \<open>An allocator that reuses the first freed block, for running the model.\<close>

definition first_fit :: allocator where
  "first_fit h = length (takeWhile (\<lambda>c. c \<noteq> None) h)"

subsection \<open>Strings\<close>

definition strdup :: "allocator \<Rightarrow> heap \<Rightarrow> addr option \<Rightarrow> fault + addr \<times> heap" where
  "strdup pick h p =
     (case read_string h p of
        Inl err \<Rightarrow> Inl err
      | Inr s \<Rightarrow> Inr (heap_alloc pick h (String_obj s)))"

text \<open>\<open>toLowerCase\<close> overwrites the buffer it is given.\<close>

definition toLowerCase_heap :: "heap \<Rightarrow> addr \<Rightarrow> fault + heap" where
  "toLowerCase_heap h str =
     (case read_string h (Some str) of
        Inl err \<Rightarrow> Inl err
      | Inr s \<Rightarrow> heap_write h str (String_obj (map tolower s)))"

definition strtolower_heap :: "allocator \<Rightarrow> heap \<Rightarrow> addr option \<Rightarrow> fault + addr \<times> heap" where
  "strtolower_heap pick h str =
     (case strdup pick h str of
        Inl err \<Rightarrow> Inl err
      | Inr (lower, h1) \<Rightarrow>
          (case toLowerCase_heap h1 lower of
             Inl err \<Rightarrow> Inl err
           | Inr h2 \<Rightarrow> Inr (lower, h2)))"

subsection \<open>Insertion\<close>

definition createTrieNode_heap :: "allocator \<Rightarrow> heap \<Rightarrow> addr \<times> heap" where
  "createTrieNode_heap pick h =
     heap_alloc pick h (Node_obj (replicate ALPHABET_SIZE None) False None 0)"

fun insertWord_heap_loop :: "allocator \<Rightarrow> heap \<Rightarrow> addr \<Rightarrow> string \<Rightarrow> fault + heap \<times> addr" where
  "insertWord_heap_loop pick h current [] = Inr (h, current)"
| "insertWord_heap_loop pick h current (c # lowerWord) =
     (let index = int (of_char c) - 97 in
      if index < 0 \<or> int ALPHABET_SIZE \<le> index then Inl Undefined
      else
        case heap_read h current of
          Some (Node_obj ch e w f) \<Rightarrow>
            (case ch ! nat index of
               None \<Rightarrow>
                 (case createTrieNode_heap pick h of
                    (child, h1) \<Rightarrow>
                      (case heap_write h1 current
                              (Node_obj (ch[nat index := Some child]) e w f) of
                         Inl err \<Rightarrow> Inl err
                       | Inr h2 \<Rightarrow> insertWord_heap_loop pick h2 child lowerWord))
             | Some child \<Rightarrow> insertWord_heap_loop pick h child lowerWord)
        | _ \<Rightarrow> Inl Undefined)"

text \<open>\<open>orig\<close> points to the caller's buffer with the spelling as submitted.\<close>

definition insertWord_heap ::
  "allocator \<Rightarrow> heap \<Rightarrow> addr option \<Rightarrow> addr option \<Rightarrow> int \<Rightarrow> fault + heap" where
  "insertWord_heap pick h root orig freq =
     (case root of
        None \<Rightarrow> Inr h
      | Some root_node \<Rightarrow>
        if orig = None then Inr h
        else
        case read_string h orig of
          Inl err \<Rightarrow> Inl err
        | Inr chars \<Rightarrow>
            if chars = [] then Inr h
            else
              (case strtolower_heap pick h orig of
                 Inl err \<Rightarrow> Inl err
               | Inr (lowerWord, h1) \<Rightarrow>
                   (case read_string h1 (Some lowerWord) of
                      Inl err \<Rightarrow> Inl err
                    | Inr letters \<Rightarrow>
                        (case insertWord_heap_loop pick h1 root_node letters of
                           Inl err \<Rightarrow> Inl err
                         | Inr (h2, current) \<Rightarrow>
                             (case heap_read h2 current of
                                Some (Node_obj ch e w f) \<Rightarrow>
                                  if w = None \<or> freq > f then
                                    (case heap_free h2 w of
                                       Inl err \<Rightarrow> Inl err
                                     | Inr h3 \<Rightarrow>
                                         (case strdup pick h3 orig of
                                            Inl err \<Rightarrow> Inl err
                                          | Inr (p, h4) \<Rightarrow>
                                              (case heap_write h4 current
                                                      (Node_obj ch True (Some p) freq) of
                                                 Inl err \<Rightarrow> Inl err
                                               | Inr h5 \<Rightarrow> heap_free h5 (Some lowerWord))))
                                  else
                                    (case heap_write h2 current (Node_obj ch True w f) of
                                       Inl err \<Rightarrow> Inl err
                                     | Inr h3 \<Rightarrow> heap_free h3 (Some lowerWord))
                              | _ \<Rightarrow> Inl Undefined)))))"

subsection \<open>Suggestions that own a copy of their word\<close>

record Suggestion_ptr =
  word_ptr :: addr
  ptr_distance :: int
  ptr_frequency :: int

type_synonym Suggestion_ptrs = "Suggestion_ptr list"

definition find_worst_heap :: "Suggestion_ptrs \<Rightarrow> nat" where
  "find_worst_heap list =
     foldl (\<lambda>worst_idx i.
              if ptr_distance (list ! i) > ptr_distance (list ! worst_idx) \<or>
                 (ptr_distance (list ! i) = ptr_distance (list ! worst_idx) \<and>
                  ptr_frequency (list ! i) < ptr_frequency (list ! worst_idx))
              then i else worst_idx)
           0 [1..<MAX_SUGGESTIONS]"

text \<open>
  \<open>addSuggestion\<close> stores a copy of the word it is given, and frees the copy of the
  entry it replaces.
\<close>

definition addSuggestion_heap ::
  "allocator \<Rightarrow> heap \<Rightarrow> Suggestion_ptrs \<Rightarrow> addr option \<Rightarrow> int \<Rightarrow> int
     \<Rightarrow> fault + heap \<times> Suggestion_ptrs" where
  "addSuggestion_heap pick h list w d f =
     (if length list < MAX_SUGGESTIONS
      then
        (case strdup pick h w of
           Inl err \<Rightarrow> Inl err
         | Inr (p, h1) \<Rightarrow>
             Inr (h1, list @ [\<lparr>word_ptr = p, ptr_distance = d, ptr_frequency = f\<rparr>]))
      else
        let worst_idx = find_worst_heap list in
        if d < ptr_distance (list ! worst_idx) \<or>
           (d = ptr_distance (list ! worst_idx) \<and> f > ptr_frequency (list ! worst_idx))
        then
          (case heap_free h (Some (word_ptr (list ! worst_idx))) of
             Inl err \<Rightarrow> Inl err
           | Inr h1 \<Rightarrow>
               (case strdup pick h1 w of
                  Inl err \<Rightarrow> Inl err
                | Inr (p, h2) \<Rightarrow>
                    Inr (h2, list[worst_idx :=
                                    \<lparr>word_ptr = p, ptr_distance = d, ptr_frequency = f\<rparr>])))
        else Inr (h, list))"

definition compareSuggestions_heap :: "Suggestion_ptr \<Rightarrow> Suggestion_ptr \<Rightarrow> int" where
  "compareSuggestions_heap sa sb =
     (if ptr_distance sa \<noteq> ptr_distance sb then wrap_int32 (ptr_distance sa - ptr_distance sb)
      else wrap_int32 (ptr_frequency sb - ptr_frequency sa))"

text \<open>The lines printed for a list of suggestions, and the loop that frees their words.\<close>

fun print_suggestions :: "heap \<Rightarrow> Suggestion_ptrs \<Rightarrow> fault + Suggestion list" where
  "print_suggestions h [] = Inr []"
| "print_suggestions h (s # rest) =
     (case read_string h (Some (word_ptr s)) of
        Inl err \<Rightarrow> Inl err
      | Inr w \<Rightarrow>
          (case print_suggestions h rest of
             Inl err \<Rightarrow> Inl err
           | Inr out \<Rightarrow>
               Inr (\<lparr>word = w, distance = ptr_distance s, frequency = ptr_frequency s\<rparr> # out)))"

fun free_suggestions :: "heap \<Rightarrow> Suggestion_ptrs \<Rightarrow> fault + heap" where
  "free_suggestions h [] = Inr h"
| "free_suggestions h (s # rest) =
     (case heap_free h (Some (word_ptr s)) of
        Inl err \<Rightarrow> Inl err
      | Inr h1 \<Rightarrow> free_suggestions h1 rest)"

subsection \<open>Prefix search\<close>

text \<open>
  The recursion of \<open>collectSuggestions\<close> follows child pointers, and a heap may hold
  pointers in a cycle; \<open>depth\<close> bounds the depth of the recursion. The loop over the
  children reads the node again in every round, as the source does.
\<close>

function collectSuggestions_heap ::
    "allocator \<Rightarrow> nat \<Rightarrow> heap \<Rightarrow> addr option \<Rightarrow> Suggestion_ptrs
       \<Rightarrow> fault + heap \<times> Suggestion_ptrs"
  and collectSuggestions_heap_loop ::
    "allocator \<Rightarrow> nat \<Rightarrow> heap \<Rightarrow> addr \<Rightarrow> nat \<Rightarrow> Suggestion_ptrs
       \<Rightarrow> fault + heap \<times> Suggestion_ptrs" where
  "collectSuggestions_heap pick depth h None suggestions = Inr (h, suggestions)"
| "collectSuggestions_heap pick 0 h (Some node) suggestions = Inl Fuel_exhausted"
| "collectSuggestions_heap pick (Suc depth) h (Some node) suggestions =
     (case heap_read h node of
        Some (Node_obj ch e w f) \<Rightarrow>
          if e then
            (case addSuggestion_heap pick h suggestions w 0 f of
               Inl err \<Rightarrow> Inl err
             | Inr (h1, suggestions1) \<Rightarrow>
                 collectSuggestions_heap_loop pick depth h1 node 0 suggestions1)
          else collectSuggestions_heap_loop pick depth h node 0 suggestions
      | _ \<Rightarrow> Inl Undefined)"
| "collectSuggestions_heap_loop pick depth h node i suggestions =
     (if i < ALPHABET_SIZE then
        (case heap_read h node of
           Some (Node_obj ch e w f) \<Rightarrow>
             (case ch ! i of
                None \<Rightarrow> collectSuggestions_heap_loop pick depth h node (i + 1) suggestions
              | Some child \<Rightarrow>
                  (case collectSuggestions_heap pick depth h (Some child) suggestions of
                     Inl err \<Rightarrow> Inl err
                   | Inr (h1, suggestions1) \<Rightarrow>
                       collectSuggestions_heap_loop pick depth h1 node (i + 1) suggestions1))
         | _ \<Rightarrow> Inl Undefined)
      else Inr (h, suggestions))"
  by pat_completeness auto
termination
  by (relation "measures
        [\<lambda>x. case x of Inl (p, d, h, n, s) \<Rightarrow> 2 * d | Inr (p, d, h, n, i, s) \<Rightarrow> 2 * d + 1,
         \<lambda>x. case x of Inl (p, d, h, n, s) \<Rightarrow> 0 | Inr (p, d, h, n, i, s) \<Rightarrow> ALPHABET_SIZE - i]")
     auto

fun walk_heap :: "heap \<Rightarrow> addr \<Rightarrow> string \<Rightarrow> fault + addr option" where
  "walk_heap h current [] = Inr (Some current)"
| "walk_heap h current (c # lowerPrefix) =
     (let index = int (of_char c) - 97 in
      if index < 0 \<or> int ALPHABET_SIZE \<le> index then Inl Undefined
      else
        case heap_read h current of
          Some (Node_obj ch e w f) \<Rightarrow>
            (case ch ! nat index of
               None \<Rightarrow> Inr None
             | Some child \<Rightarrow> walk_heap h child lowerPrefix)
        | _ \<Rightarrow> Inl Undefined)"

text \<open>
  \<open>pfx\<close> points to the caller's buffer. With a null argument the function returns
  at once and prints nothing (\<open>None\<close>).
\<close>

definition searchWordsByPrefix_heap ::
  "allocator \<Rightarrow> nat \<Rightarrow> heap \<Rightarrow> addr option \<Rightarrow> addr option
     \<Rightarrow> fault + heap \<times> search_output option" where
  "searchWordsByPrefix_heap pick depth h root pfx =
     (case root of
        None \<Rightarrow> Inr (h, None)
      | Some root_node \<Rightarrow>
     if pfx = None then Inr (h, None) else
     (case strtolower_heap pick h pfx of
        Inl err \<Rightarrow> Inl err
      | Inr (lowerPrefix, h1) \<Rightarrow>
          (case read_string h1 (Some lowerPrefix) of
             Inl err \<Rightarrow> Inl err
           | Inr letters \<Rightarrow>
               (case walk_heap h1 root_node letters of
                  Inl err \<Rightarrow> Inl err
                | Inr None \<Rightarrow>
                    (case heap_free h1 (Some lowerPrefix) of
                       Inl err \<Rightarrow> Inl err
                     | Inr h2 \<Rightarrow> Inr (h2, Some No_suggestions_found))
                | Inr (Some current) \<Rightarrow>
                    (case collectSuggestions_heap pick depth h1 (Some current) [] of
                       Inl err \<Rightarrow> Inl err
                     | Inr (h2, suggestions) \<Rightarrow>
                         let sorted = qsort compareSuggestions_heap suggestions in
                         (case (if length sorted = 0 then Inr []
                                else print_suggestions h2 (take MAX_SUGGESTIONS sorted)) of
                            Inl err \<Rightarrow> Inl err
                          | Inr lines \<Rightarrow>
                              (case free_suggestions h2 sorted of
                                 Inl err \<Rightarrow> Inl err
                               | Inr h3 \<Rightarrow>
                                   (case heap_free h3 (Some lowerPrefix) of
                                      Inl err \<Rightarrow> Inl err
                                    | Inr h4 \<Rightarrow>
                                        Inr (h4, Some (if length sorted = 0
                                                       then No_suggestions_found
                                                       else Suggestions_for lines))))))))))"

subsection \<open>Edit distance and spelling correction\<close>

text \<open>
  The two rows are blocks of the heap. A round of the outer loop fills the current row;
  the model writes the block once per round, with the row that \<open>fill_row\<close> computes.
\<close>

definition malloc_row :: "allocator \<Rightarrow> bool \<Rightarrow> heap \<Rightarrow> nat \<Rightarrow> addr option \<times> heap" where
  "malloc_row pick ok h n =
     (if ok then (case heap_alloc pick h (Row_obj (replicate n 0)) of (a, h1) \<Rightarrow> (Some a, h1))
      else (None, h))"

fun levenshtein_rows ::
  "heap \<Rightarrow> string \<Rightarrow> string \<Rightarrow> addr \<Rightarrow> addr \<Rightarrow> nat list \<Rightarrow> fault + heap \<times> addr \<times> addr" where
  "levenshtein_rows h s t prev_p curr_p [] = Inr (h, prev_p, curr_p)"
| "levenshtein_rows h s t prev_p curr_p (i # rest) =
     (case heap_read h prev_p of
        Some (Row_obj prev_row) \<Rightarrow>
          (case heap_read h curr_p of
             Some (Row_obj curr_row) \<Rightarrow>
               (case heap_write h curr_p (Row_obj (fill_row s t i prev_row curr_row)) of
                  Inl err \<Rightarrow> Inl err
                | Inr h1 \<Rightarrow> levenshtein_rows h1 s t curr_p prev_p rest)
           | _ \<Rightarrow> Inl Undefined)
      | _ \<Rightarrow> Inl Undefined)"

definition levenshteinDistance_heap ::
  "allocator \<Rightarrow> bool \<Rightarrow> bool \<Rightarrow> heap \<Rightarrow> addr \<Rightarrow> addr \<Rightarrow> fault + heap \<times> int" where
  "levenshteinDistance_heap pick prev_ok curr_ok h s t =
     (case read_string h (Some s) of
        Inl err \<Rightarrow> Inl err
      | Inr s_chars \<Rightarrow>
          (case read_string h (Some t) of
             Inl err \<Rightarrow> Inl err
           | Inr t_chars \<Rightarrow>
               let lenS = length s_chars; lenT = length t_chars in
               (case malloc_row pick prev_ok h (lenT + 1) of
                  (prev_p, h1) \<Rightarrow>
                    (case malloc_row pick curr_ok h1 (lenT + 1) of
                       (curr_p, h2) \<Rightarrow>
                         (case (prev_p, curr_p) of
                            (Some p, Some c) \<Rightarrow>
                              (case heap_write h2 p (Row_obj (map int [0..<lenT + 1])) of
                                 Inl err \<Rightarrow> Inl err
                               | Inr h3 \<Rightarrow>
                                   (case levenshtein_rows h3 s_chars t_chars p c
                                           [1..<lenS + 1] of
                                      Inl err \<Rightarrow> Inl err
                                    | Inr (h4, p', c') \<Rightarrow>
                                        (case heap_read h4 p' of
                                           Some (Row_obj prev_row) \<Rightarrow>
                                             (case heap_free h4 (Some p') of
                                                Inl err \<Rightarrow> Inl err
                                              | Inr h5 \<Rightarrow>
                                                  (case heap_free h5 (Some c') of
                                                     Inl err \<Rightarrow> Inl err
                                                   | Inr h6 \<Rightarrow> Inr (h6, prev_row ! lenT)))
                                         | _ \<Rightarrow> Inl Undefined)))
                          | _ \<Rightarrow>
                              (case heap_free h2 prev_p of
                                 Inl err \<Rightarrow> Inl err
                               | Inr h3 \<Rightarrow>
                                   (case heap_free h3 curr_p of
                                      Inl err \<Rightarrow> Inl err
                                    | Inr h4 \<Rightarrow> Inr (h4, INT_MAX))))))))"

text \<open>A \<open>Dictionary\<close> in the heap model is the list of pointers to its words.\<close>

fun suggestSimilarWords_heap_loop ::
  "allocator \<Rightarrow> (nat \<Rightarrow> bool \<times> bool) \<Rightarrow> heap \<Rightarrow> addr \<Rightarrow> addr list \<Rightarrow> nat list
     \<Rightarrow> Suggestion_ptrs \<Rightarrow> fault + heap \<times> Suggestion_ptrs" where
  "suggestSimilarWords_heap_loop pick alloc h lowerInput dict [] suggestions =
     Inr (h, suggestions)"
| "suggestSimilarWords_heap_loop pick alloc h lowerInput dict (i # rest) suggestions =
     (case strtolower_heap pick h (Some (dict ! i)) of
        Inl err \<Rightarrow> Inl err
      | Inr (lowerDictWord, h1) \<Rightarrow>
          (case levenshteinDistance_heap pick (fst (alloc i)) (snd (alloc i)) h1
                  lowerInput lowerDictWord of
             Inl err \<Rightarrow> Inl err
           | Inr (h2, d) \<Rightarrow>
               (case heap_free h2 (Some lowerDictWord) of
                  Inl err \<Rightarrow> Inl err
                | Inr h3 \<Rightarrow>
                    if d \<le> MAX_LEVENSHTEIN_DISTANCE then
                      (case addSuggestion_heap pick h3 suggestions (Some (dict ! i)) d 0 of
                         Inl err \<Rightarrow> Inl err
                       | Inr (h4, suggestions1) \<Rightarrow>
                           suggestSimilarWords_heap_loop pick alloc h4 lowerInput dict rest
                             suggestions1)
                    else
                      suggestSimilarWords_heap_loop pick alloc h3 lowerInput dict rest
                        suggestions)))"

definition suggestSimilarWords_heap ::
  "allocator \<Rightarrow> (nat \<Rightarrow> bool \<times> bool) \<Rightarrow> heap \<Rightarrow> addr option \<Rightarrow> addr list
     \<Rightarrow> fault + heap \<times> Suggestion list" where
  "suggestSimilarWords_heap pick alloc h input dict =
     (if input = None \<or> length dict = 0 then Inr (h, [])
      else
        case strtolower_heap pick h input of
          Inl err \<Rightarrow> Inl err
        | Inr (lowerInput, h1) \<Rightarrow>
            (case suggestSimilarWords_heap_loop pick alloc h1 lowerInput dict
                    [0..<length dict] [] of
               Inl err \<Rightarrow> Inl err
             | Inr (h2, suggestions) \<Rightarrow>
                 let sorted = qsort compareSuggestions_heap suggestions in
                 (case print_suggestions h2 (take MAX_SUGGESTIONS sorted) of
                    Inl err \<Rightarrow> Inl err
                  | Inr lines \<Rightarrow>
                      (case free_suggestions h2 sorted of
                         Inl err \<Rightarrow> Inl err
                       | Inr h3 \<Rightarrow>
                           (case heap_free h3 (Some lowerInput) of
                              Inl err \<Rightarrow> Inl err
                            | Inr h4 \<Rightarrow> Inr (h4, lines))))))"

subsection \<open>Collecting and listing the words\<close>

function collectAllWords_heap ::
    "allocator \<Rightarrow> nat \<Rightarrow> heap \<Rightarrow> addr option \<Rightarrow> addr list \<Rightarrow> fault + heap \<times> addr list"
  and collectAllWords_heap_loop ::
    "allocator \<Rightarrow> nat \<Rightarrow> heap \<Rightarrow> addr \<Rightarrow> nat \<Rightarrow> addr list \<Rightarrow> fault + heap \<times> addr list" where
  "collectAllWords_heap pick depth h None dict = Inr (h, dict)"
| "collectAllWords_heap pick 0 h (Some node) dict = Inl Fuel_exhausted"
| "collectAllWords_heap pick (Suc depth) h (Some node) dict =
     (case heap_read h node of
        Some (Node_obj ch e w f) \<Rightarrow>
          if e \<and> w \<noteq> None \<and> length dict < MAX_WORDS then
            (case strdup pick h w of
               Inl err \<Rightarrow> Inl err
             | Inr (p, h1) \<Rightarrow> collectAllWords_heap_loop pick depth h1 node 0 (dict @ [p]))
          else collectAllWords_heap_loop pick depth h node 0 dict
      | _ \<Rightarrow> Inl Undefined)"
| "collectAllWords_heap_loop pick depth h node i dict =
     (if i < ALPHABET_SIZE then
        (case heap_read h node of
           Some (Node_obj ch e w f) \<Rightarrow>
             (case ch ! i of
                None \<Rightarrow> collectAllWords_heap_loop pick depth h node (i + 1) dict
              | Some child \<Rightarrow>
                  (case collectAllWords_heap pick depth h (Some child) dict of
                     Inl err \<Rightarrow> Inl err
                   | Inr (h1, dict1) \<Rightarrow>
                       collectAllWords_heap_loop pick depth h1 node (i + 1) dict1))
         | _ \<Rightarrow> Inl Undefined)
      else Inr (h, dict))"
  by pat_completeness auto
termination
  by (relation "measures
        [\<lambda>x. case x of Inl (p, d, h, n, s) \<Rightarrow> 2 * d | Inr (p, d, h, n, i, s) \<Rightarrow> 2 * d + 1,
         \<lambda>x. case x of Inl (p, d, h, n, s) \<Rightarrow> 0 | Inr (p, d, h, n, i, s) \<Rightarrow> ALPHABET_SIZE - i]")
     auto

fun print_words :: "heap \<Rightarrow> addr list \<Rightarrow> fault + string list" where
  "print_words h [] = Inr []"
| "print_words h (p # rest) =
     (case read_string h (Some p) of
        Inl err \<Rightarrow> Inl err
      | Inr w \<Rightarrow>
          (case print_words h rest of Inl err \<Rightarrow> Inl err | Inr out \<Rightarrow> Inr (w # out)))"

fun freeDictionary :: "heap \<Rightarrow> addr list \<Rightarrow> fault + heap" where
  "freeDictionary h [] = Inr h"
| "freeDictionary h (p # rest) =
     (case heap_free h (Some p) of
        Inl err \<Rightarrow> Inl err
      | Inr h1 \<Rightarrow> freeDictionary h1 rest)"

text \<open>
  Case 2 of \<open>main\<close>. \<open>pointer_value a\<close> is the machine address of block \<open>a\<close>, whose
  bytes the comparison reads.
\<close>

definition show_all_words_heap ::
  "allocator \<Rightarrow> (addr \<Rightarrow> nat) \<Rightarrow> nat \<Rightarrow> heap \<Rightarrow> addr \<Rightarrow> fault + heap \<times> string list" where
  "show_all_words_heap pick pointer_value depth h root =
     (case collectAllWords_heap pick depth h (Some root) [] of
        Inl err \<Rightarrow> Inl err
      | Inr (h1, allWords) \<Rightarrow>
          let sorted = qsort (\<lambda>a b. strcmp (cell_as_string (pointer_value a))
                                          (cell_as_string (pointer_value b))) allWords in
          (case print_words h1 sorted of
             Inl err \<Rightarrow> Inl err
           | Inr lines \<Rightarrow>
               (case freeDictionary h1 sorted of
                  Inl err \<Rightarrow> Inl err
                | Inr h2 \<Rightarrow> Inr (h2, lines))))"

text \<open>
  Every block that was allocated before a call still holds the same object after it.
\<close>

definition kept :: "heap \<Rightarrow> heap \<Rightarrow> bool" where
  "kept h0 h \<longleftrightarrow> (\<forall>a c. heap_read h0 a = Some c \<longrightarrow> heap_read h a = Some c)"

text \<open>
  A heap to run the model on: the caller's buffers with "Hi" and "h", and the empty
  root node that \<open>main\<close> creates first.
\<close>

definition example_heap :: heap where
  "example_heap =
     [Some (String_obj ''Hi''), Some (String_obj ''h''),
      Some (Node_obj (replicate ALPHABET_SIZE None) False None 0)]"

section \<open>Properties of the ranking\<close>

lemma not_worse_refl: "not_worse a a"
  by (simp add: not_worse_def)

lemma not_worse_trans: "not_worse a b \<Longrightarrow> not_worse b c \<Longrightarrow> not_worse a c"
  by (auto simp: not_worse_def)

lemma not_worse_total:
  "\<not> (distance a > distance b \<or> (distance a = distance b \<and> frequency a < frequency b))
     \<longleftrightarrow> not_worse a b"
  by (auto simp: not_worse_def)

lemma worse_not_worse:
  "distance a > distance b \<or> (distance a = distance b \<and> frequency a < frequency b)
     \<Longrightarrow> not_worse b a"
  by (auto simp: not_worse_def)

lemma find_worst_foldl:
  fixes list :: SuggestionList
  defines "step \<equiv> (\<lambda>worst_idx i.
              if distance (list ! i) > distance (list ! worst_idx) \<or>
                 (distance (list ! i) = distance (list ! worst_idx) \<and>
                  frequency (list ! i) < frequency (list ! worst_idx))
              then i else worst_idx)"
  shows "foldl step k js \<in> insert k (set js) \<and>
         (\<forall>i \<in> insert k (set js). not_worse (list ! i) (list ! foldl step k js))"
proof (induction js arbitrary: k)
  case Nil
  show ?case by (simp add: not_worse_refl)
next
  case (Cons j js)
  have k: "not_worse (list ! k) (list ! step k j)"
    by (auto simp: step_def not_worse_refl intro: worse_not_worse)
  have j: "not_worse (list ! j) (list ! step k j)"
    by (auto simp: step_def not_worse_refl not_worse_total [symmetric])
  have s: "step k j = k \<or> step k j = j"
    by (simp add: step_def)
  from Cons.IH [of "step k j"]
  have IH1: "foldl step (step k j) js \<in> insert (step k j) (set js)"
    and IH2: "\<And>i. i \<in> insert (step k j) (set js) \<Longrightarrow>
                 not_worse (list ! i) (list ! foldl step (step k j) js)"
    by blast+
  have top: "not_worse (list ! step k j) (list ! foldl step (step k j) js)"
    using IH2 by blast
  show ?case
  proof (intro conjI ballI)
    show "foldl step k (j # js) \<in> insert k (set (j # js))"
      using IH1 s by auto
  next
    fix i assume "i \<in> insert k (set (j # js))"
    then consider "i = k" | "i = j" | "i \<in> set js" by auto
    then show "not_worse (list ! i) (list ! foldl step k (j # js))"
    proof cases
      case 1 then show ?thesis using not_worse_trans [OF k top] by simp
    next
      case 2 then show ?thesis using not_worse_trans [OF j top] by simp
    next
      case 3 then show ?thesis using IH2 by simp
    qed
  qed
qed

lemma find_worst_is_worst:
  "find_worst list < MAX_SUGGESTIONS \<and>
   (\<forall>i < MAX_SUGGESTIONS. not_worse (list ! i) (list ! find_worst list))"
proof -
  have idx: "insert 0 (set [1..<MAX_SUGGESTIONS]) = {i. i < MAX_SUGGESTIONS}"
    by (auto simp: MAX_SUGGESTIONS_def)
  show ?thesis
    using find_worst_foldl [of list 0 "[1..<MAX_SUGGESTIONS]"]
    unfolding find_worst_def [symmetric] idx by blast
qed

text \<open>
  C4. When the list holds \<open>MAX_SUGGESTIONS\<close> (ten) entries, \<open>addSuggestion\<close> locates a worst
  retained entry: no entry has a larger distance, and among the entries of that largest
  distance none has a smaller frequency. The offered record replaces that entry if and only
  if it is strictly better (smaller distance, or equal distance and larger frequency);
  otherwise the list is unchanged.
\<close>

theorem addSuggestion_replaces_worst:
  assumes "length list = MAX_SUGGESTIONS"
  shows "find_worst list < length list \<and>
         (\<forall>i < length list.
            distance (list ! i) \<le> distance (list ! find_worst list) \<and>
            (distance (list ! i) = distance (list ! find_worst list) \<longrightarrow>
             frequency (list ! find_worst list) \<le> frequency (list ! i))) \<and>
         addSuggestion list w d f =
           (if d < distance (list ! find_worst list) \<or>
               (d = distance (list ! find_worst list) \<and> f > frequency (list ! find_worst list))
            then list[find_worst list := \<lparr>word = w, distance = d, frequency = f\<rparr>]
            else list)"
proof -
  have "addSuggestion list w d f =
           (if d < distance (list ! find_worst list) \<or>
               (d = distance (list ! find_worst list) \<and> f > frequency (list ! find_worst list))
            then list[find_worst list := \<lparr>word = w, distance = d, frequency = f\<rparr>]
            else list)"
    using assms by (simp add: addSuggestion_def Let_def)
  then show ?thesis
    using find_worst_is_worst [of list] assms by (simp add: not_worse_def)
qed

theorem addSuggestion_replaces_worst_witness:
  "find_worst (map (\<lambda>i. \<lparr>word = ''w'', distance = (if i = 3 then 2 else 1), frequency = int i\<rparr>) [0..<10]) = 3 \<and>
   addSuggestion (map (\<lambda>i. \<lparr>word = ''w'', distance = (if i = 3 then 2 else 1), frequency = int i\<rparr>) [0..<10])
       ''new'' 1 0 =
     (map (\<lambda>i. \<lparr>word = ''w'', distance = (if i = 3 then 2 else 1), frequency = int i\<rparr>) [0..<10])
       [3 := \<lparr>word = ''new'', distance = 1, frequency = 0\<rparr>]"
proof -
  let ?l = "map (\<lambda>i. \<lparr>word = ''w'', distance = (if i = 3 then 2 else 1), frequency = int i\<rparr>) [0..<10]"
  have len: "length ?l = MAX_SUGGESTIONS"
    by (simp add: MAX_SUGGESTIONS_def)
  have fw: "find_worst ?l = 3"
    by (simp add: find_worst_def MAX_SUGGESTIONS_def upt_rec)
  show ?thesis
    using addSuggestion_replaces_worst [OF len, of "''new''" 1 0] fw
    by (simp add: upt_rec)
qed

section \<open>The edit distance computed by the rows\<close>

lemma lev_Nil2 [simp]: "lev xs [] = length xs"
  by (cases xs) simp_all

lemma lev_sym: "lev a b = lev b a"
  by (induction a b rule: lev.induct) (simp_all add: min.commute min.left_commute)

lemma lev_le_max: "lev a b \<le> max (length a) (length b)"
  by (induction a b rule: lev.induct) auto

lemma lev_refl [simp]: "lev a a = 0"
  by (induction a) simp_all

text \<open>An edit at the front of the second string changes the distance by at most one.\<close>

lemma lev_ins_front: "lev a (c # b) \<le> Suc (lev a b)"
  by (cases a) simp_all

lemma lev_del_front: "lev a b \<le> Suc (lev a (c # b))"
proof (induction a)
  case Nil show ?case by simp
next
  case (Cons x a)
  have "lev (x # a) b \<le> Suc (lev a b)"
    using lev_ins_front [of b x a] by (simp add: lev_sym)
  with Cons show ?case by auto
qed

lemma lev_sub_front: "lev a (d # b) \<le> Suc (lev a (c # b))"
proof (induction a)
  case Nil show ?case by simp
next
  case (Cons x a)
  then show ?case by auto
qed

lemma lev_Cons_mono:
  assumes "\<And>a. lev a b' \<le> Suc (lev a b)"
  shows "lev a (x # b') \<le> Suc (lev a (x # b))"
proof (induction a)
  case Nil
  show ?case using assms [of "[]"] by simp
next
  case (Cons y a)
  show ?case using Cons assms [of a] assms [of "y # a"] by auto
qed

lemma lev_edit1: "edit1 b c \<Longrightarrow> lev a c \<le> Suc (lev a b)"
proof (induction arbitrary: a rule: edit1.induct)
  case (insertion xs ys c)
  show ?case
    by (induction xs arbitrary: a) (simp_all add: lev_ins_front lev_Cons_mono)
next
  case (deletion xs c ys)
  show ?case
    by (induction xs arbitrary: a) (simp_all add: lev_del_front lev_Cons_mono)
next
  case (substitution c d xs ys)
  show ?case
    by (induction xs arbitrary: a) (simp_all add: lev_sub_front lev_Cons_mono)
qed

lemma lev_lower: "edits n a b \<Longrightarrow> lev a b \<le> n"
proof (induction rule: edits.induct)
  case (edits_0 a)
  show ?case by simp
next
  case (edits_Suc n a b c)
  then show ?case using lev_edit1 [of b c a] by simp
qed

text \<open>The recursion is reached by that many edits.\<close>

lemma edit1_Cons: "edit1 a b \<Longrightarrow> edit1 (x # a) (x # b)"
proof (induction rule: edit1.induct)
  case (insertion xs ys c)
  show ?case using edit1.insertion [of "x # xs" ys c] by simp
next
  case (deletion xs c ys)
  show ?case using edit1.deletion [of "x # xs" c ys] by simp
next
  case (substitution c d xs ys)
  then show ?case using edit1.substitution [of c d "x # xs" ys] by simp
qed

lemma edits_Cons: "edits n a b \<Longrightarrow> edits n (x # a) (x # b)"
  by (induction rule: edits.induct) (auto intro: edits.intros edit1_Cons)

lemma edits_trans: "edits n b c \<Longrightarrow> edits m a b \<Longrightarrow> edits (m + n) a c"
  by (induction rule: edits.induct) (auto intro: edits.intros)

lemma edits_1: "edit1 a b \<Longrightarrow> edits (Suc 0) a b"
  using edits_Suc [OF edits_0] by blast

lemma edits_step_first: "edit1 a b \<Longrightarrow> edits n b c \<Longrightarrow> edits (Suc n) a c"
  using edits_trans [OF _ edits_1, of n b c a] by simp

lemma edit1_ins_front: "edit1 b (y # b)"
  using edit1.insertion [of "[]" b y] by simp

lemma edit1_del_front: "edit1 (x # a) a"
  using edit1.deletion [of "[]" x a] by simp

lemma edit1_sub_front: "x \<noteq> y \<Longrightarrow> edit1 (x # a) (y # a)"
  using edit1.substitution [of x y "[]" a] by simp

lemma edits_from_Nil: "edits (length ys) [] ys"
proof (induction ys)
  case Nil
  show ?case by (simp add: edits_0)
next
  case (Cons y ys)
  show ?case using edits_Suc [OF Cons edit1_ins_front [of ys y]] by simp
qed

lemma edits_to_Nil: "edits (length xs) xs []"
proof (induction xs)
  case Nil
  show ?case by (simp add: edits_0)
next
  case (Cons x xs)
  show ?case using edits_step_first [OF edit1_del_front [of x xs] Cons] by simp
qed

lemma lev_upper: "edits (lev a b) a b"
proof (induction a b rule: lev.induct)
  case (1 ys)
  show ?case by (simp add: edits_from_Nil)
next
  case (2 v va)
  show ?case using edits_to_Nil [of "v # va"] by simp
next
  case (3 x xs y ys)
  let ?d = "lev xs (y # ys)" and ?i = "lev (x # xs) ys" and ?s = "lev xs ys"
  have del: "edits (Suc ?d) (x # xs) (y # ys)"
    using edits_step_first [OF edit1_del_front "3.IH"(1)] .
  have ins: "edits (Suc ?i) (x # xs) (y # ys)"
    using edits_Suc [OF "3.IH"(2) edit1_ins_front] .
  have sub: "edits (?s + (if x = y then 0 else 1)) (x # xs) (y # ys)"
  proof (cases "x = y")
    case True
    then show ?thesis using edits_Cons [OF "3.IH"(3), of x] by simp
  next
    case False
    then show ?thesis
      using edits_step_first [OF edit1_sub_front [OF False] edits_Cons [OF "3.IH"(3), of y]]
      by simp
  qed
  show ?case
    using del ins sub by (simp add: min_def)
qed

lemma edit1_rev: "edit1 a b \<Longrightarrow> edit1 (rev a) (rev b)"
proof (induction rule: edit1.induct)
  case (insertion xs ys c)
  show ?case using edit1.insertion [of "rev ys" "rev xs" c] by simp
next
  case (deletion xs c ys)
  show ?case using edit1.deletion [of "rev ys" c "rev xs"] by simp
next
  case (substitution c d xs ys)
  then show ?case using edit1.substitution [of c d "rev ys" "rev xs"] by simp
qed

lemma edits_rev: "edits n a b \<Longrightarrow> edits n (rev a) (rev b)"
  by (induction rule: edits.induct) (auto intro: edits.intros edit1_rev)

lemma edits_rev_iff: "edits n (rev a) (rev b) \<longleftrightarrow> edits n a b"
  using edits_rev [of n a b] edits_rev [of n "rev a" "rev b"] by auto


lemma table_0_left [simp]: "table s t 0 j = int (min j (length t))"
  by (simp add: table_def min.commute)

lemma table_0_right [simp]: "table s t i 0 = int (min i (length s))"
  by (simp add: table_def min.commute)

lemma table_Suc:
  assumes "i < length s" "j < length t"
  shows "table s t (Suc i) (Suc j) =
           min (min (table s t i (Suc j) + 1) (table s t (Suc i) j + 1))
               (table s t i j + (if s ! i = t ! j then 0 else 1))"
  using assms by (simp add: table_def take_Suc_conv_app_nth min_def)

lemma min3_nested:
  "(if (a::int) + 1 < b + 1
    then (if a + 1 < c then a + 1 else c)
    else (if b + 1 < c then b + 1 else c)) = min (min (a + 1) (b + 1)) c"
  by (simp add: min_def)

lemma row_cell_length [simp]: "length (row_cell s t i prev_row curr_row j) = length curr_row"
  by (simp add: row_cell_def Let_def)

lemma inner_loop:
  assumes prev: "\<forall>j \<le> length t. prev_row ! j = table s t i j"
    and i: "i < length s" and len: "length curr_row = length t + 1"
    and n: "n \<le> length t"
  shows "length (foldl (row_cell s t (Suc i) prev_row) (curr_row[0 := int (Suc i)]) [1..<Suc n])
           = length t + 1 \<and>
         (\<forall>j \<le> n. foldl (row_cell s t (Suc i) prev_row) (curr_row[0 := int (Suc i)]) [1..<Suc n] ! j
                    = table s t (Suc i) j)"
  using n
proof (induction n)
  case 0
  show ?case using len i by simp
next
  case (Suc n)
  let ?r = "foldl (row_cell s t (Suc i) prev_row) (curr_row[0 := int (Suc i)]) [1..<Suc n]"
  from Suc have n: "n < length t" and lr: "length ?r = length t + 1"
    and IH: "\<And>j. j \<le> n \<Longrightarrow> ?r ! j = table s t (Suc i) j"
    by auto
  have unfold: "foldl (row_cell s t (Suc i) prev_row) (curr_row[0 := int (Suc i)]) [1..<Suc (Suc n)]
                  = row_cell s t (Suc i) prev_row ?r (Suc n)"
    by simp
  have new: "row_cell s t (Suc i) prev_row ?r (Suc n) ! Suc n = table s t (Suc i) (Suc n)"
    using prev n lr IH [of n] i
    by (simp add: row_cell_def Let_def min3_nested table_Suc)
  have old: "row_cell s t (Suc i) prev_row ?r (Suc n) ! j = table s t (Suc i) j" if "j \<le> n" for j
    using that IH [of j] by (simp add: row_cell_def Let_def)
  show ?case
    unfolding unfold
  proof (intro conjI allI impI)
    show "length (row_cell s t (Suc i) prev_row ?r (Suc n)) = length t + 1"
      using lr by simp
  next
    fix j assume "j \<le> Suc n"
    then consider "j = Suc n" | "j \<le> n" by linarith
    then show "row_cell s t (Suc i) prev_row ?r (Suc n) ! j = table s t (Suc i) j"
      using new old by cases auto
  qed
qed

lemma fill_row_table:
  assumes "\<forall>j \<le> length t. prev_row ! j = table s t i j"
    and "i < length s" and "length curr_row = length t + 1"
  shows "length (fill_row s t (Suc i) prev_row curr_row) = length t + 1 \<and>
         (\<forall>j \<le> length t. fill_row s t (Suc i) prev_row curr_row ! j = table s t (Suc i) j)"
  using inner_loop [OF assms, of "length t"] by (simp add: fill_row_def)

lemma outer_loop:
  fixes s t :: string
  defines "body \<equiv> (\<lambda>(prev_row, curr_row) i. (fill_row s t i prev_row curr_row, prev_row))"
    and "init \<equiv> (map int [0..<length t + 1], replicate (length t + 1) (0::int))"
  assumes "m \<le> length s"
  shows "length (fst (foldl body init [1..<Suc m])) = length t + 1 \<and>
         length (snd (foldl body init [1..<Suc m])) = length t + 1 \<and>
         (\<forall>j \<le> length t. fst (foldl body init [1..<Suc m]) ! j = table s t m j)"
  using assms(3)
proof (induction m)
  case 0
  have "j \<le> length t \<Longrightarrow> map int [0..<length t + 1] ! j = int j" for j
    using nth_map [of j "[0..<length t + 1]" int] nth_upt [of 0 j "length t + 1"]
    by (simp del: upt_Suc)
  then show ?case by (simp add: init_def del: upt_Suc)
next
  case (Suc m)
  let ?st = "foldl body init [1..<Suc m]"
  have unfold: "foldl body init [1..<Suc (Suc m)] = body ?st (Suc m)"
    by simp
  have body: "body ?st (Suc m) = (fill_row s t (Suc m) (fst ?st) (snd ?st), fst ?st)"
    by (simp add: body_def split_beta)
  from Suc have p: "length (fst ?st) = length t + 1" and c: "length (snd ?st) = length t + 1"
    and tab: "\<forall>j \<le> length t. fst ?st ! j = table s t m j" and m: "m < length s"
    by auto
  show ?case
    unfolding unfold body
    using fill_row_table [OF tab m c] p by simp
qed

lemma levenshteinDistance_lev:
  "levenshteinDistance True True s t = int (lev (rev s) (rev t))"
proof -
  have "levenshteinDistance True True s t =
          fst (foldl (\<lambda>(prev_row, curr_row) i. (fill_row s t i prev_row curr_row, prev_row))
                 (map int [0..<length t + 1], replicate (length t + 1) 0)
                 [1..<Suc (length s)]) ! length t"
    by (simp add: levenshteinDistance_def Let_def split_beta del: upt_Suc)
  also have "\<dots> = table s t (length s) (length t)"
    using outer_loop [of "length s" s t] by simp
  finally show ?thesis
    by (simp add: table_def)
qed


lemma levenshteinDistance_edits:
  "edits (nat (levenshteinDistance True True a b)) a b"
  using lev_upper [of "rev a" "rev b"] by (simp add: levenshteinDistance_lev edits_rev_iff)

lemma levenshteinDistance_least:
  "edits n a b \<Longrightarrow> levenshteinDistance True True a b \<le> int n"
  using lev_lower [of n "rev a" "rev b"] by (simp add: levenshteinDistance_lev edits_rev_iff)

lemma levenshteinDistance_alloc_failure:
  "\<not> (prev_ok \<and> curr_ok) \<Longrightarrow> levenshteinDistance prev_ok curr_ok s t = INT_MAX"
  by (auto simp: levenshteinDistance_def)

lemma levenshteinDistance_bounds:
  "0 \<le> levenshteinDistance True True s t \<and>
   levenshteinDistance True True s t \<le> int (max (length s) (length t))"
  using lev_le_max [of "rev s" "rev t"] by (simp add: levenshteinDistance_lev)

text \<open>
  C7. When both rows are allocated, \<open>levenshteinDistance a b\<close> is the least number of
  single-character insertions, deletions and substitutions that turn \<open>a\<close> into \<open>b\<close>:
  it is not negative, that many edits do it, and no smaller number does. For "kitten" and
  "sitting" it is 3.
\<close>

theorem levenshteinDistance_minimal_edits:
  "0 \<le> levenshteinDistance True True a b \<and>
   edits (nat (levenshteinDistance True True a b)) a b \<and>
   (\<forall>n. edits n a b \<longrightarrow> levenshteinDistance True True a b \<le> int n) \<and>
   levenshteinDistance True True ''kitten'' ''sitting'' = 3"
proof -
  have "lev (rev ''kitten'') (rev ''sitting'') = 3"
    by code_simp
  then have "levenshteinDistance True True ''kitten'' ''sitting'' = 3"
    by (simp only: levenshteinDistance_lev)
  then show ?thesis
    using levenshteinDistance_edits [of a b] levenshteinDistance_least [of _ a b]
      levenshteinDistance_bounds [of a b]
    by blast
qed

theorem levenshteinDistance_minimal_edits_witness:
  "edits 3 ''kitten'' ''sitting'' \<and> levenshteinDistance True True ''kitten'' ''sitting'' \<le> 3"
proof -
  note inst = levenshteinDistance_minimal_edits [of "''kitten''" "''sitting''"]
  from inst have three: "levenshteinDistance True True ''kitten'' ''sitting'' = 3"
    by blast
  from inst have "edits (nat (levenshteinDistance True True ''kitten'' ''sitting'')) ''kitten'' ''sitting''"
    by blast
  then have e: "edits 3 ''kitten'' ''sitting''"
    by (simp add: three)
  from inst e have "levenshteinDistance True True ''kitten'' ''sitting'' \<le> int 3"
    by blast
  with e show ?thesis by simp
qed

section \<open>Sorting and offering\<close>

lemma set_qsort_insert [simp]: "set (qsort_insert compar x ys) = insert x (set ys)"
  by (induction ys) auto

lemma length_qsort_insert [simp]: "length (qsort_insert compar x ys) = Suc (length ys)"
  by (induction ys) auto

lemma set_qsort [simp]: "set (qsort compar xs) = set xs"
  by (induction xs) (simp_all add: qsort_def)

lemma length_qsort [simp]: "length (qsort compar xs) = length xs"
  by (induction xs) (simp_all add: qsort_def)

lemma sorted_qsort_insert:
  fixes key :: "'a \<Rightarrow> 'k::linorder"
  assumes "\<And>a b. a \<in> insert x (set ys) \<Longrightarrow> b \<in> insert x (set ys) \<Longrightarrow>
             (compar a b \<le> 0) = (key a \<le> key b)"
    and "sorted_wrt (\<lambda>a b. key a \<le> key b) ys"
  shows "sorted_wrt (\<lambda>a b. key a \<le> key b) (qsort_insert compar x ys)"
  using assms
proof (induction ys)
  case Nil
  show ?case by simp
next
  case (Cons y ys)
  show ?case
  proof (cases "compar x y \<le> 0")
    case True
    then have "key x \<le> key y"
      using Cons.prems(1) [of x y] by simp
    then show ?thesis
      using True Cons.prems(2) by auto
  next
    case False
    then have "key y \<le> key x"
      using Cons.prems(1) [of x y] by auto
    moreover have "sorted_wrt (\<lambda>a b. key a \<le> key b) (qsort_insert compar x ys)"
      using Cons.IH Cons.prems by auto
    ultimately show ?thesis
      using False Cons.prems(2) by auto
  qed
qed

lemma sorted_qsort:
  fixes key :: "'a \<Rightarrow> 'k::linorder"
  assumes "\<And>a b. a \<in> set xs \<Longrightarrow> b \<in> set xs \<Longrightarrow> (compar a b \<le> 0) = (key a \<le> key b)"
  shows "sorted_wrt (\<lambda>a b. key a \<le> key b) (qsort compar xs)"
  using assms
proof (induction xs)
  case Nil
  show ?case by (simp add: qsort_def)
next
  case (Cons x xs)
  have IH: "sorted_wrt (\<lambda>a b. key a \<le> key b) (qsort compar xs)"
    using Cons by auto
  have step: "qsort compar (x # xs) = qsort_insert compar x (qsort compar xs)"
    by (simp add: qsort_def)
  show ?case
    unfolding step
    by (rule sorted_qsort_insert [OF _ IH]) (use Cons.prems in auto)
qed

lemma set_addSuggestion:
  "set (addSuggestion list w d f) \<subseteq> insert \<lparr>word = w, distance = d, frequency = f\<rparr> (set list)"
proof -
  have "set (list[k := x]) \<subseteq> insert x (set list)" for k and x :: Suggestion
    by (rule set_update_subset_insert)
  then show ?thesis
    by (auto simp: addSuggestion_def Let_def)
qed

lemma length_addSuggestion:
  "length list \<le> MAX_SUGGESTIONS \<Longrightarrow> length (addSuggestion list w d f) \<le> MAX_SUGGESTIONS"
  by (auto simp: addSuggestion_def Let_def)

lemma wrap_int32_small: "- 2147483648 \<le> x \<Longrightarrow> x < 2147483648 \<Longrightarrow> wrap_int32 x = x"
  by (simp add: wrap_int32_def)

section \<open>Spelling correction\<close>

lemma suggestSimilarWords_loop:
  fixes alloc input dict
  defines "body \<equiv> (\<lambda>suggestions i.
                       let lowerDictWord = strtolower (dict ! i);
                           d = levenshteinDistance (fst (alloc i)) (snd (alloc i))
                                 (strtolower input) lowerDictWord
                       in if d \<le> MAX_LEVENSHTEIN_DISTANCE
                          then addSuggestion suggestions (dict ! i) d 0
                          else suggestions)"
  assumes "set js \<subseteq> {..<length dict}"
    and "\<forall>s \<in> set acc. fuzzy_entry alloc input dict s" and "length acc \<le> MAX_SUGGESTIONS"
  shows "(\<forall>s \<in> set (foldl body acc js). fuzzy_entry alloc input dict s) \<and>
         length (foldl body acc js) \<le> MAX_SUGGESTIONS"
  using assms(2-)
proof (induction js arbitrary: acc)
  case Nil
  then show ?case by simp
next
  case (Cons j js)
  have j: "j < length dict" using Cons.prems(1) by simp
  have len: "length (body acc j) \<le> MAX_SUGGESTIONS"
    using Cons.prems(3) by (simp add: body_def Let_def length_addSuggestion)
  have inv: "\<forall>s \<in> set (body acc j). fuzzy_entry alloc input dict s"
  proof (cases "levenshteinDistance (fst (alloc j)) (snd (alloc j))
                  (strtolower input) (strtolower (dict ! j)) \<le> MAX_LEVENSHTEIN_DISTANCE")
    case False
    then show ?thesis using Cons.prems(2) by (simp add: body_def Let_def)
  next
    case True
    let ?d = "levenshteinDistance (fst (alloc j)) (snd (alloc j))
                (strtolower input) (strtolower (dict ! j))"
    have ok: "fst (alloc j) \<and> snd (alloc j)"
    proof (rule ccontr)
      assume "\<not> (fst (alloc j) \<and> snd (alloc j))"
      then have "?d = INT_MAX" by (rule levenshteinDistance_alloc_failure)
      with True show False
        by (simp add: INT_MAX_def MAX_LEVENSHTEIN_DISTANCE_def)
    qed
    have new: "fuzzy_entry alloc input dict \<lparr>word = dict ! j, distance = ?d, frequency = 0\<rparr>"
      using True ok j by (auto simp: fuzzy_entry_def)
    have "body acc j = addSuggestion acc (dict ! j) ?d 0"
      using True by (simp add: body_def Let_def)
    then show ?thesis
      using set_addSuggestion [of acc "dict ! j" ?d 0] new Cons.prems(2) by auto
  qed
  show ?case
    using Cons.IH [OF _ inv len] Cons.prems(1) by simp
qed

lemma suggestSimilarWords_entries:
  "(\<forall>s \<in> set (suggestSimilarWords alloc input dict). fuzzy_entry alloc input dict s) \<and>
   length (suggestSimilarWords alloc input dict) \<le> MAX_SUGGESTIONS"
proof (cases "length dict = 0")
  case True
  then show ?thesis by (simp add: suggestSimilarWords_def)
next
  case False
  have "set [0..<length dict] \<subseteq> {..<length dict}" by auto
  from suggestSimilarWords_loop [OF this, of initSuggestionList alloc input]
  show ?thesis
    using False
    by (auto simp: suggestSimilarWords_def Let_def initSuggestionList_def dest!: in_set_takeD)
qed

lemma compareSuggestions_fuzzy:
  assumes "fuzzy_entry alloc input dict a" "fuzzy_entry alloc input dict b"
  shows "(compareSuggestions a b \<le> 0) = (distance a \<le> distance b)"
proof -
  have "0 \<le> distance a" "distance a \<le> 2" "0 \<le> distance b" "distance b \<le> 2"
       "frequency a = 0" "frequency b = 0"
    using assms levenshteinDistance_bounds
    by (auto simp: fuzzy_entry_def MAX_LEVENSHTEIN_DISTANCE_def)
  then show ?thesis
    by (simp add: compareSuggestions_def wrap_int32_small)
qed

lemma suggestSimilarWords_sorted:
  "sorted_wrt (\<lambda>a b. distance a \<le> distance b) (suggestSimilarWords alloc input dict)"
proof (cases "length dict = 0")
  case True
  then show ?thesis by (simp add: suggestSimilarWords_def)
next
  case False
  define suggestions where "suggestions = foldl (\<lambda>suggestions i.
                       let lowerDictWord = strtolower (dict ! i);
                           d = levenshteinDistance (fst (alloc i)) (snd (alloc i))
                                 (strtolower input) lowerDictWord
                       in if d \<le> MAX_LEVENSHTEIN_DISTANCE
                          then addSuggestion suggestions (dict ! i) d 0
                          else suggestions)
                    initSuggestionList [0..<length dict]"
  have "set [0..<length dict] \<subseteq> {..<length dict}" by auto
  from suggestSimilarWords_loop [OF this, of initSuggestionList alloc input]
  have inv: "\<forall>s \<in> set suggestions. fuzzy_entry alloc input dict s"
    by (simp add: suggestions_def initSuggestionList_def)
  have "sorted_wrt (\<lambda>a b. distance a \<le> distance b) (qsort compareSuggestions suggestions)"
    by (rule sorted_qsort) (use inv compareSuggestions_fuzzy in blast)
  moreover have "suggestSimilarWords alloc input dict =
                   take MAX_SUGGESTIONS (qsort compareSuggestions suggestions)"
    using False by (simp add: suggestSimilarWords_def Let_def suggestions_def)
  ultimately show ?thesis
    by (simp add: sorted_wrt_take)
qed

lemma fuzzy_entry_edits:
  assumes "fuzzy_entry alloc input dict s"
  shows "\<exists>n \<le> 2. edits n (strtolower input) (strtolower (word s))"
proof -
  let ?d = "levenshteinDistance True True (strtolower input) (strtolower (word s))"
  have "0 \<le> ?d" "?d \<le> 2"
    using assms levenshteinDistance_bounds
    by (auto simp: fuzzy_entry_def MAX_LEVENSHTEIN_DISTANCE_def)
  then have "nat ?d \<le> 2" by simp
  then show ?thesis
    using levenshteinDistance_edits [of "strtolower input" "strtolower (word s)"] by blast
qed

text \<open>
  C6. Every suggestion of \<open>suggestSimilarWords\<close> is a dictionary word that at most two
  edits separate, after case folding, from the case-folded input; its distance field is
  that edit distance and its frequency is 0. The suggestions come in non-decreasing
  distance (and, within one distance, non-increasing frequency), at most ten of them.
\<close>

theorem suggestSimilarWords_within_two_edits:
  "(\<forall>s \<in> set (suggestSimilarWords alloc input dict).
      word s \<in> set dict \<and>
      distance s = levenshteinDistance True True (strtolower input) (strtolower (word s)) \<and>
      distance s \<le> 2 \<and>
      (\<exists>n \<le> 2. edits n (strtolower input) (strtolower (word s))) \<and>
      frequency s = 0) \<and>
   sorted_wrt (\<lambda>a b. distance a < distance b \<or>
                      (distance a = distance b \<and> frequency b \<le> frequency a))
     (suggestSimilarWords alloc input dict) \<and>
   length (suggestSimilarWords alloc input dict) \<le> 10"
proof -
  let ?out = "suggestSimilarWords alloc input dict"
  have inv: "\<And>s. s \<in> set ?out \<Longrightarrow> fuzzy_entry alloc input dict s"
    and len: "length ?out \<le> 10"
    using suggestSimilarWords_entries [of alloc input dict] by (auto simp: MAX_SUGGESTIONS_def)
  have entries: "\<forall>s \<in> set ?out.
      word s \<in> set dict \<and>
      distance s = levenshteinDistance True True (strtolower input) (strtolower (word s)) \<and>
      distance s \<le> 2 \<and>
      (\<exists>n \<le> 2. edits n (strtolower input) (strtolower (word s))) \<and>
      frequency s = 0"
  proof
    fix s assume "s \<in> set ?out"
    then have f: "fuzzy_entry alloc input dict s" by (rule inv)
    then show "word s \<in> set dict \<and>
      distance s = levenshteinDistance True True (strtolower input) (strtolower (word s)) \<and>
      distance s \<le> 2 \<and>
      (\<exists>n \<le> 2. edits n (strtolower input) (strtolower (word s))) \<and>
      frequency s = 0"
      using fuzzy_entry_edits [OF f]
      by (auto simp: fuzzy_entry_def MAX_LEVENSHTEIN_DISTANCE_def)
  qed
  have "sorted_wrt (\<lambda>a b. distance a \<le> distance b \<and> a \<in> set ?out \<and> b \<in> set ?out) ?out"
    using suggestSimilarWords_sorted [of alloc input dict]
    by (simp add: sorted_wrt_iff_nth_less)
  then have "sorted_wrt (\<lambda>a b. distance a < distance b \<or>
                      (distance a = distance b \<and> frequency b \<le> frequency a)) ?out"
    by (rule sorted_wrt_mono_rel [rotated]) (use entries in auto)
  with entries len show ?thesis by blast
qed

theorem suggestSimilarWords_within_two_edits_witness:
  "suggestSimilarWords enough_memory ''Aple'' [''apple'', ''app'', ''orange''] =
     [\<lparr>word = ''apple'', distance = 1, frequency = 0\<rparr>,
      \<lparr>word = ''app'', distance = 2, frequency = 0\<rparr>] \<and>
   levenshteinDistance True True ''aple'' ''apple'' = 1 \<and>
   levenshteinDistance True True ''aple'' ''app'' = 2"
proof -
  have out: "suggestSimilarWords enough_memory ''Aple'' [''apple'', ''app'', ''orange''] =
     [\<lparr>word = ''apple'', distance = 1, frequency = 0\<rparr>,
      \<lparr>word = ''app'', distance = 2, frequency = 0\<rparr>]"
    by code_simp
  have low: "strtolower ''Aple'' = ''aple''" "strtolower ''apple'' = ''apple''"
    "strtolower ''app'' = ''app''"
    by code_simp+
  note inst = suggestSimilarWords_within_two_edits
                [of enough_memory "''Aple''" "[''apple'', ''app'', ''orange'']"]
  have "\<forall>s \<in> set [\<lparr>word = ''apple'', distance = 1, frequency = 0\<rparr>,
                    \<lparr>word = ''app'', distance = 2, frequency = 0\<rparr>].
          distance s = levenshteinDistance True True ''aple'' (strtolower (word s))"
    using inst unfolding out low by blast
  then show ?thesis
    using out by (simp add: low)
qed

text \<open>
  C2 as stated does not hold: when a row cannot be allocated, \<open>levenshteinDistance\<close>
  returns the number \<open>INT_MAX\<close> to its caller, and \<open>suggestSimilarWords\<close> goes on
  and prints no suggestion for a word at distance 0.
\<close>

theorem levenshteinDistance_failure_not_fatal:
  "levenshteinDistance False False ''cat'' ''cat'' = 2147483647 \<and>
   levenshteinDistance True True ''cat'' ''cat'' = 0 \<and>
   suggestSimilarWords no_memory ''cat'' [''cat''] = [] \<and>
   suggestSimilarWords enough_memory ''cat'' [''cat''] =
     [\<lparr>word = ''cat'', distance = 0, frequency = 0\<rparr>]"
  by code_simp

text \<open>
  C2, amended. For strings shorter than \<open>INT_MAX\<close>, \<open>levenshteinDistance\<close> returns
  \<open>INT_MAX\<close> exactly when one of its two rows cannot be allocated. The value goes back to
  the caller as an ordinary result: \<open>suggestSimilarWords\<close> returns normally and suggests
  only words for which both rows were allocated.
\<close>

theorem levenshteinDistance_failure_sentinel:
  assumes "length s < 2147483647" and "length t < 2147483647"
  shows "(levenshteinDistance prev_ok curr_ok s t = INT_MAX \<longleftrightarrow> \<not> (prev_ok \<and> curr_ok)) \<and>
         (\<forall>x \<in> set (suggestSimilarWords alloc input dict).
            \<exists>i < length dict. word x = dict ! i \<and> fst (alloc i) \<and> snd (alloc i))"
proof -
  have "int (max (length s) (length t)) < 2147483647"
    using assms by (simp add: max_def)
  with levenshteinDistance_bounds [of s t]
  have "levenshteinDistance True True s t < 2147483647"
    by linarith
  then have "levenshteinDistance True True s t < INT_MAX"
    by (simp add: INT_MAX_def)
  then have "levenshteinDistance prev_ok curr_ok s t = INT_MAX \<longleftrightarrow> \<not> (prev_ok \<and> curr_ok)"
    using levenshteinDistance_alloc_failure [of prev_ok curr_ok s t]
    by (cases "prev_ok \<and> curr_ok") auto
  moreover have "\<forall>x \<in> set (suggestSimilarWords alloc input dict).
            \<exists>i < length dict. word x = dict ! i \<and> fst (alloc i) \<and> snd (alloc i)"
    using suggestSimilarWords_entries [of alloc input dict] by (auto simp: fuzzy_entry_def)
  ultimately show ?thesis by blast
qed

theorem levenshteinDistance_failure_sentinel_witness:
  "levenshteinDistance True False ''cat'' ''cart'' = INT_MAX \<and>
   levenshteinDistance True True ''cat'' ''cart'' \<noteq> INT_MAX \<and>
   suggestSimilarWords enough_memory ''cat'' [''cart''] =
     [\<lparr>word = ''cart'', distance = 1, frequency = 0\<rparr>] \<and>
   fst (enough_memory 0) \<and> snd (enough_memory 0)"
proof -
  have l: "length ''cat'' < 2147483647" "length ''cart'' < 2147483647"
    by simp_all
  have out: "suggestSimilarWords enough_memory ''cat'' [''cart''] =
     [\<lparr>word = ''cart'', distance = 1, frequency = 0\<rparr>]"
    by code_simp
  note a = levenshteinDistance_failure_sentinel
             [OF l, of True False enough_memory "''cat''" "[''cart'']"]
  note b = levenshteinDistance_failure_sentinel
             [OF l, of True True enough_memory "''cat''" "[''cart'']"]
  have "levenshteinDistance True False ''cat'' ''cart'' = INT_MAX"
    using a by blast
  moreover have "levenshteinDistance True True ''cat'' ''cart'' \<noteq> INT_MAX"
    using b by blast
  moreover have "fst (enough_memory 0) \<and> snd (enough_memory 0)"
    using b unfolding out by auto
  ultimately show ?thesis using out by blast
qed

section \<open>Insertion into the letter tree\<close>

lemma isValidWord_iff: "isValidWord w \<longleftrightarrow> (\<forall>c \<in> set w. isalpha c)"
  by (induction w) auto

lemma tolower_lower_letter: "isalpha c \<Longrightarrow> lower_letter (tolower c)"
  by (auto simp: isalpha_def tolower_def lower_letter_def Let_def)

lemma lower_letter_index:
  assumes "lower_letter c"
  shows "\<not> (int (of_char c) - 97 < 0 \<or> int ALPHABET_SIZE \<le> int (of_char c) - 97)"
    and "letter_index c < ALPHABET_SIZE"
    and "nat (int (of_char c) - 97) = letter_index c"
  using assms by (auto simp: lower_letter_def letter_index_def ALPHABET_SIZE_def)

lemma letter_index_inj:
  assumes "lower_letter c" "lower_letter d" "letter_index c = letter_index d"
  shows "c = d"
proof -
  have "97 \<le> (of_char c :: nat)" "97 \<le> (of_char d :: nat)"
    using assms(1,2) by (simp_all add: lower_letter_def)
  moreover have "nat (int (of_char c) - 97) = nat (int (of_char d) - 97)"
    using assms(3) by (simp add: letter_index_def)
  ultimately have "(of_char c :: nat) = of_char d"
    by linarith
  then show "c = d" by (simp only: of_char_eq_iff)
qed

lemma trie_inv_create: "trie_inv createTrieNode"
  by (simp add: createTrieNode_def)

lemma stored_create: "stored createTrieNode p = None"
  by (cases p) (auto simp: createTrieNode_def ALPHABET_SIZE_def)

lemma trie_inv_child:
  assumes "trie_inv (TrieNode ch e w f)" and "k < length ch"
  shows "trie_inv (case ch ! k of None \<Rightarrow> createTrieNode | Some child \<Rightarrow> child)"
proof (cases "ch ! k")
  case None
  then show ?thesis by (simp add: trie_inv_create)
next
  case (Some child)
  then have "Some child \<in> set ch" using assms(2) nth_mem by fastforce
  then show ?thesis using assms(1) Some by auto
qed

lemma stored_child:
  assumes "k < length ch"
  shows "stored (case ch ! k of None \<Rightarrow> createTrieNode | Some child \<Rightarrow> child) q
           = stored (TrieNode ch e w f) (k # q)"
  using assms by (simp add: stored_create split: option.split)

lemma insertWord_from_stored:
  assumes "trie_inv r" and "\<forall>c \<in> set lw. lower_letter c"
  shows "\<exists>r'. insertWord_from r lw orig freq = Inr r' \<and> trie_inv r' \<and>
           (\<forall>p. stored r' p = (if p = map letter_index lw
                                then keep_best (stored r p) (orig, freq) else stored r p))"
  using assms
proof (induction lw arbitrary: r)
  case Nil
  obtain ch e w f where r: "r = TrieNode ch e w f" by (cases r)
  let ?r' = "if w = None \<or> freq > f then TrieNode ch True (Some orig) freq
             else TrieNode ch True w f"
  have ins: "insertWord_from r [] orig freq = Inr ?r'"
    by (simp add: r)
  have inv: "trie_inv ?r'"
    using Nil.prems(1) by (auto simp: r)
  have st: "stored ?r' p = (if p = [] then keep_best (stored r p) (orig, freq) else stored r p)"
    for p
  proof (cases p)
    case Nil
    then show ?thesis using Nil.prems(1) by (cases w) (auto simp: r)
  next
    case (Cons i q)
    then show ?thesis by (simp add: r)
  qed
  show ?case using ins inv st by simp
next
  case (Cons c lw)
  obtain ch e w f where r: "r = TrieNode ch e w f" by (cases r)
  let ?k = "letter_index c"
  let ?child = "case ch ! ?k of None \<Rightarrow> createTrieNode | Some child \<Rightarrow> child"
  have c: "lower_letter c" and lw: "\<forall>c \<in> set lw. lower_letter c"
    using Cons.prems(2) by auto
  have len: "length ch = ALPHABET_SIZE" using Cons.prems(1) by (simp add: r)
  have k: "?k < length ch" using lower_letter_index(2) [OF c] len by simp
  have "trie_inv ?child" using trie_inv_child [OF _ k] Cons.prems(1) r by blast
  from Cons.IH [OF this lw] obtain child' where
    ins': "insertWord_from ?child lw orig freq = Inr child'" and inv': "trie_inv child'"
    and st': "\<And>q. stored child' q = (if q = map letter_index lw
                                then keep_best (stored ?child q) (orig, freq)
                                else stored ?child q)"
    by blast
  let ?r' = "TrieNode (ch[?k := Some child']) e w f"
  have ins: "insertWord_from r (c # lw) orig freq = Inr ?r'"
    using lower_letter_index(1,3) [OF c] ins' by (simp add: r Let_def)
  have "set (ch[?k := Some child']) \<subseteq> insert (Some child') (set ch)"
    by (rule set_update_subset_insert)
  then have inv: "trie_inv ?r'"
    using Cons.prems(1) inv' by (auto simp: r)
  have st: "stored ?r' p = (if p = map letter_index (c # lw)
                            then keep_best (stored r p) (orig, freq) else stored r p)" for p
  proof (cases p)
    case Nil
    then show ?thesis by (simp add: r)
  next
    case (Cons i q)
    show ?thesis
    proof (cases "i = ?k")
      case True
      have "stored ?r' p = stored child' q"
        using k by (simp add: Cons True)
      also have "\<dots> = (if q = map letter_index lw
                        then keep_best (stored r (?k # q)) (orig, freq)
                        else stored r (?k # q))"
        using stored_child [OF k, of q e w f] by (simp only: st' r)
      finally show ?thesis by (simp add: Cons True)
    next
      case False
      then show ?thesis by (simp add: Cons r)
    qed
  qed
  show ?case using ins inv st by blast
qed


lemma strtolower_lower_letters:
  "isValidWord w \<Longrightarrow> \<forall>c \<in> set (strtolower w). lower_letter c"
  by (auto simp: isValidWord_iff strtolower_def toLowerCase_def tolower_lower_letter)

lemma insertWord_stored:
  assumes "trie_inv r" and "alphabetic w"
  shows "\<exists>r'. insertWord r w f = Inr r' \<and> trie_inv r' \<and>
           (\<forall>p. stored r' p = (if p = word_path w
                                then keep_best (stored r p) (w, f) else stored r p))"
proof -
  have "w \<noteq> []" and "\<forall>c \<in> set (strtolower w). lower_letter c"
    using assms(2) strtolower_lower_letters by (auto simp: alphabetic_def)
  then show ?thesis
    using insertWord_from_stored [OF assms(1), of "strtolower w" w f]
    by (simp add: insertWord_def word_path_def)
qed

lemma insertWords_stored:
  assumes "trie_inv r" and "\<forall>x \<in> set xs. alphabetic (fst x)"
  shows "\<exists>r'. insertWords r xs = Inr r' \<and> trie_inv r' \<and>
           (\<forall>p. stored r' p =
                  foldl keep_best (stored r p) (filter (\<lambda>x. word_path (fst x) = p) xs))"
  using assms
proof (induction xs arbitrary: r)
  case Nil
  then show ?case by simp
next
  case (Cons x xs)
  obtain w f where x: "x = (w, f)" by (cases x)
  have "alphabetic w" using Cons.prems(2) x by simp
  from insertWord_stored [OF Cons.prems(1) this, of f] obtain r1 where
    r1: "insertWord r w f = Inr r1" and inv1: "trie_inv r1"
    and st1: "\<And>p. stored r1 p = (if p = word_path w
                                then keep_best (stored r p) (w, f) else stored r p)"
    by blast
  have "\<forall>x \<in> set xs. alphabetic (fst x)" using Cons.prems(2) by simp
  from Cons.IH [OF inv1 this] obtain r' where
    r': "insertWords r1 xs = Inr r'" and inv': "trie_inv r'"
    and st': "\<And>p. stored r' p =
                  foldl keep_best (stored r1 p) (filter (\<lambda>x. word_path (fst x) = p) xs)"
    by blast
  have "insertWords r (x # xs) = Inr r'"
    using r1 r' by (simp add: x)
  moreover have "stored r' p =
      foldl keep_best (stored r p) (filter (\<lambda>x. word_path (fst x) = p) (x # xs))" for p
    by (simp add: st' st1 x)
  ultimately show ?case using inv' by blast
qed

lemma keep_best_first_maximum:
  assumes "ys \<noteq> []"
  shows "\<exists>i < length ys. foldl keep_best None ys = Some (ys ! i) \<and>
           (\<forall>j < length ys. snd (ys ! j) \<le> snd (ys ! i)) \<and>
           (\<forall>j < i. snd (ys ! j) < snd (ys ! i))"
  using assms
proof (induction ys rule: rev_induct)
  case Nil
  then show ?case by simp
next
  case (snoc y ys)
  obtain w f where y: "y = (w, f)" by (cases y)
  show ?case
  proof (cases "ys = []")
    case True
    then show ?thesis by (simp add: y)
  next
    case False
    from snoc.IH [OF False] obtain i where i: "i < length ys"
      and best: "foldl keep_best None ys = Some (ys ! i)"
      and top: "\<forall>j < length ys. snd (ys ! j) \<le> snd (ys ! i)"
      and first: "\<forall>j < i. snd (ys ! j) < snd (ys ! i)"
      by blast
    obtain w0 f0 where yi: "ys ! i = (w0, f0)" by (cases "ys ! i")
    have top0: "snd (ys ! j) \<le> f0" if "j < length ys" for j
      using top that yi by simp
    show ?thesis
    proof (cases "f > f0")
      case True
      have "foldl keep_best None (ys @ [y]) = Some ((ys @ [y]) ! length ys)"
        using True by (simp add: best yi y)
      moreover have "snd ((ys @ [y]) ! j) \<le> snd ((ys @ [y]) ! length ys)"
        if "j < length (ys @ [y])" for j
      proof (cases "j < length ys")
        case True
        then show ?thesis using top0 [OF True] \<open>f > f0\<close> by (simp add: nth_append y)
      next
        case False
        then have "j = length ys" using that by simp
        then show ?thesis by simp
      qed
      moreover have "snd ((ys @ [y]) ! j) < snd ((ys @ [y]) ! length ys)"
        if "j < length ys" for j
        using top0 [OF that] True that by (simp add: nth_append y)
      ultimately show ?thesis
        by (intro exI [of _ "length ys"]) simp
    next
      case False
      have "foldl keep_best None (ys @ [y]) = Some ((ys @ [y]) ! i)"
        using False i by (simp add: best yi y nth_append)
      moreover have "snd ((ys @ [y]) ! j) \<le> snd ((ys @ [y]) ! i)"
        if "j < length (ys @ [y])" for j
      proof (cases "j < length ys")
        case True
        then show ?thesis using top0 [OF True] i yi by (simp add: nth_append)
      next
        case nl: False
        then have "j = length ys" using that by simp
        then show ?thesis using False i yi by (simp add: nth_append y)
      qed
      moreover have "snd ((ys @ [y]) ! j) < snd ((ys @ [y]) ! i)" if "j < i" for j
        using first i that by (simp add: nth_append)
      ultimately show ?thesis
        using i by (intro exI [of _ i]) simp
    qed
  qed
qed

lemma keep_best_None_iff: "foldl keep_best None ys = None \<longleftrightarrow> ys = []"
  using keep_best_first_maximum [of ys] by (cases "ys = []") auto

lemma word_path_eq_iff:
  assumes "\<forall>c \<in> set (strtolower v). lower_letter c" "\<forall>c \<in> set (strtolower w). lower_letter c"
  shows "word_path v = word_path w \<longleftrightarrow> strtolower v = strtolower w"
proof
  assume "word_path v = word_path w"
  then have "map letter_index (strtolower v) = map letter_index (strtolower w)"
    by (simp add: word_path_def)
  moreover have "inj_on letter_index (set (strtolower v) \<union> set (strtolower w))"
    using assms by (intro inj_onI) (auto intro: letter_index_inj)
  ultimately show "strtolower v = strtolower w"
    by (rule inj_on_map_eq_map [THEN iffD1, rotated])
next
  assume "strtolower v = strtolower w"
  then show "word_path v = word_path w" by (simp add: word_path_def)
qed

lemma filter_word_path:
  assumes "\<forall>x \<in> set xs. alphabetic (fst x)" and "insertions_of k xs \<noteq> []"
  shows "filter (\<lambda>x. word_path (fst x) = word_path k) xs = insertions_of k xs"
proof -
  from assms(2) obtain x where "x \<in> set xs" "strtolower (fst x) = strtolower k"
    by (auto simp: insertions_of_def filter_empty_conv)
  then have k: "\<forall>c \<in> set (strtolower k). lower_letter c"
    using assms(1) strtolower_lower_letters [of "fst x"] by (auto simp: alphabetic_def)
  have "word_path (fst y) = word_path k \<longleftrightarrow> strtolower (fst y) = strtolower k"
    if "y \<in> set xs" for y
    using that assms(1) strtolower_lower_letters [of "fst y"] word_path_eq_iff [OF _ k, of "fst y"]
    by (auto simp: alphabetic_def)
  then show ?thesis
    unfolding insertions_of_def by (intro filter_cong) auto
qed

text \<open>
  C3. After any sequence of insertions of alphabetic words, the node of a word \<open>k\<close> that
  was inserted at least once stores one of the inserted pairs of that word (same
  case-folded form): its frequency is the maximum of the frequencies inserted for the
  word, and it is the earliest insertion with that frequency, so the spelling kept is the
  one submitted then.
\<close>

theorem insertWord_keeps_first_maximum:
  assumes "\<forall>x \<in> set xs. alphabetic (fst x)" and "insertions_of k xs \<noteq> []"
  shows "\<exists>store i. insertWords createTrieNode xs = Inr store \<and> i < length (insertions_of k xs) \<and>
           stored store (word_path k) = Some (insertions_of k xs ! i) \<and>
           snd (insertions_of k xs ! i) = Max (snd ` set (insertions_of k xs)) \<and>
           (\<forall>j < i. snd (insertions_of k xs ! j) < snd (insertions_of k xs ! i))"
proof -
  let ?ys = "insertions_of k xs"
  from insertWords_stored [OF trie_inv_create assms(1)] obtain store where
    store: "insertWords createTrieNode xs = Inr store"
    and st: "\<And>p. stored store p =
               foldl keep_best (stored createTrieNode p) (filter (\<lambda>x. word_path (fst x) = p) xs)"
    by blast
  have st_k: "stored store (word_path k) = foldl keep_best None ?ys"
    by (simp add: st stored_create filter_word_path [OF assms])
  from keep_best_first_maximum [OF assms(2)] obtain i where i: "i < length ?ys"
    and best: "foldl keep_best None ?ys = Some (?ys ! i)"
    and top: "\<forall>j < length ?ys. snd (?ys ! j) \<le> snd (?ys ! i)"
    and first: "\<forall>j < i. snd (?ys ! j) < snd (?ys ! i)"
    by blast
  have "Max (snd ` set ?ys) = snd (?ys ! i)"
  proof (rule Max_eqI)
    show "finite (snd ` set ?ys)" by simp
    show "snd (?ys ! i) \<in> snd ` set ?ys" using i by simp
    show "y \<le> snd (?ys ! i)" if "y \<in> snd ` set ?ys" for y
    proof -
      from that obtain j where "j < length ?ys" "y = snd (?ys ! j)"
        by (auto simp: in_set_conv_nth)
      then show ?thesis using top by simp
    qed
  qed
  then show ?thesis
    using store i best first st_k by auto
qed

theorem insertWord_keeps_first_maximum_witness:
  "\<exists>store. insertWords createTrieNode
              [(''Hello'', 5), (''world'', 9), (''HELLO'', 7), (''hello'', 7), (''hellO'', 2)]
            = Inr store \<and>
           stored store (word_path ''hello'') = Some (''HELLO'', 7)"
proof -
  let ?xs = "[(''Hello'', 5), (''world'', 9), (''HELLO'', 7), (''hello'', 7), (''hellO'', 2)]"
  have valid: "\<forall>x \<in> set ?xs. alphabetic (fst x)"
    by code_simp
  have ys: "insertions_of ''hello'' ?xs =
              [(''Hello'', 5), (''HELLO'', 7), (''hello'', 7), (''hellO'', 2)]"
    by code_simp
  then have ne: "insertions_of ''hello'' ?xs \<noteq> []"
    by simp
  define ys where "ys = [(''Hello'', 5::int), (''HELLO'', 7), (''hello'', 7), (''hellO'', 2)]"
  from insertWord_keeps_first_maximum [OF valid ne] obtain store i where
    store: "insertWords createTrieNode ?xs = Inr store"
    and i: "i < length ys"
    and st: "stored store (word_path ''hello'') = Some (ys ! i)"
    and mx: "snd (ys ! i) = Max (snd ` set ys)"
    and first: "\<forall>j < i. snd (ys ! j) < snd (ys ! i)"
    unfolding ys ys_def [symmetric] by blast
  have nth: "ys ! 0 = (''Hello'', 5)" "ys ! 1 = (''HELLO'', 7)" "ys ! 2 = (''hello'', 7)"
    "ys ! 3 = (''hellO'', 2)" "ys ! Suc 0 = (''HELLO'', 7)"
    by (simp_all add: ys_def)
  have seven: "Max (snd ` set ys) = 7"
    by (simp add: ys_def)
  from i have "i < 4" by (simp add: ys_def)
  then consider "i = 0" | "i = 1" | "i = 2" | "i = 3" by linarith
  then have "i = 1"
  proof cases
    case 1
    with mx seven nth show ?thesis by simp
  next
    case 2
    then show ?thesis .
  next
    case 3
    then have "snd (ys ! 1) < snd (ys ! 2)" using first by simp
    then show ?thesis by (simp add: nth)
  next
    case 4
    with mx seven nth show ?thesis by simp
  qed
  with store st nth show ?thesis by simp
qed

lemma stored_node_at:
  "stored r p = (case node_at r p of
                   None \<Rightarrow> None
                 | Some n \<Rightarrow> if isEndOfWord n
                             then map_option (\<lambda>x. (x, TrieNode.frequency n)) (originalWord n)
                             else None)"
proof (induction p arbitrary: r)
  case Nil
  show ?case by (cases r) simp
next
  case (Cons i p)
  show ?case by (cases r) (simp add: Cons split: option.split)
qed

lemma trie_inv_node_at: "trie_inv r \<Longrightarrow> node_at r p = Some n \<Longrightarrow> trie_inv n"
proof (induction p arbitrary: r)
  case Nil
  then show ?case by simp
next
  case (Cons i p)
  obtain ch e w f where r: "r = TrieNode ch e w f" by (cases r)
  from Cons.prems(2) obtain child where i: "i < length ch" and c: "ch ! i = Some child"
    and n: "node_at child p = Some n"
    by (auto simp: r split: if_splits option.splits)
  have "Some child \<in> set ch" using i c nth_mem by fastforce
  then have "trie_inv child" using Cons.prems(1) by (auto simp: r)
  then show ?case using Cons.IH n by blast
qed

lemma terminal_iff_stored:
  assumes "trie_inv r"
  shows "(\<exists>n. node_at r p = Some n \<and> isEndOfWord n) \<longleftrightarrow> stored r p \<noteq> None"
proof -
  have "originalWord n \<noteq> None" if "node_at r p = Some n" "isEndOfWord n" for n
    using trie_inv_node_at [OF assms that(1)] that(2) by (cases n) simp
  then show ?thesis
    by (auto simp: stored_node_at split: option.splits)
qed

lemma path_letters_word_path:
  assumes "isValidWord w"
  shows "path_letters (word_path w) = strtolower w"
proof -
  have "char_of (letter_index c + 97) = c" if "lower_letter c" for c
  proof -
    have "letter_index c + 97 = of_char c"
      using that unfolding lower_letter_def letter_index_def by linarith
    then show ?thesis by simp
  qed
  then show ?thesis
    using strtolower_lower_letters [OF assms]
    by (simp add: path_letters_def word_path_def map_idI)
qed

lemma insertWords_stored_member:
  assumes "\<forall>x \<in> set xs. alphabetic (fst x)" and "insertWords createTrieNode xs = Inr store"
  shows "stored store p = Some x \<Longrightarrow> x \<in> set xs \<and> word_path (fst x) = p"
    and "stored store p \<noteq> None \<longleftrightarrow> p \<in> word_path ` fst ` set xs"
    and "trie_inv store"
proof -
  from insertWords_stored [OF trie_inv_create assms(1)] assms(2)
  have inv: "trie_inv store"
    and st: "\<And>p. stored store p =
               foldl keep_best None (filter (\<lambda>x. word_path (fst x) = p) xs)"
    by (auto simp: stored_create)
  show "trie_inv store" by (rule inv)
  show "stored store p \<noteq> None \<longleftrightarrow> p \<in> word_path ` fst ` set xs"
    by (auto simp: st keep_best_None_iff filter_empty_conv)
  show "x \<in> set xs \<and> word_path (fst x) = p" if "stored store p = Some x"
  proof -
    let ?ys = "filter (\<lambda>x. word_path (fst x) = p) xs"
    have "?ys \<noteq> []" using that st [of p] by auto
    from keep_best_first_maximum [OF this] obtain i where "i < length ?ys"
      "foldl keep_best None ?ys = Some (?ys ! i)"
      by blast
    then have "x \<in> set ?ys" using that st [of p] by (metis nth_mem option.inject)
    then show ?thesis by simp
  qed
qed

text \<open>
  C8. In the store built from the empty root by insertions of alphabetic words, every
  end-of-word node holds a spelling whose case-folded form is spelled by the letters on
  the path to the node; the paths of the end-of-word nodes are exactly the paths of the
  inserted words, one node for each distinct case-folded inserted word.
\<close>

theorem terminal_nodes_are_the_inserted_words:
  assumes "\<forall>x \<in> set xs. alphabetic (fst x)"
  shows "\<exists>store. insertWords createTrieNode xs = Inr store \<and>
           (\<forall>p n. node_at store p = Some n \<and> isEndOfWord n \<longrightarrow>
                  (\<exists>w. originalWord n = Some w \<and> path_letters p = strtolower w)) \<and>
           {p. \<exists>n. node_at store p = Some n \<and> isEndOfWord n} = word_path ` fst ` set xs \<and>
           card {p. \<exists>n. node_at store p = Some n \<and> isEndOfWord n}
             = card (strtolower ` fst ` set xs)"
proof -
  from insertWords_stored [OF trie_inv_create assms] obtain store where
    store: "insertWords createTrieNode xs = Inr store"
    by blast
  note mem = insertWords_stored_member [OF assms store]
  have paths: "{p. \<exists>n. node_at store p = Some n \<and> isEndOfWord n} = word_path ` fst ` set xs"
    using terminal_iff_stored [OF mem(3)] mem(2) by auto
  have spell: "\<exists>w. originalWord n = Some w \<and> path_letters p = strtolower w"
    if "node_at store p = Some n \<and> isEndOfWord n" for p n
  proof -
    from that terminal_iff_stored [OF mem(3), of p] obtain x where x: "stored store p = Some x"
      by auto
    then have "originalWord n = Some (fst x)"
      using that by (auto simp: stored_node_at split: if_splits)
    moreover have "x \<in> set xs" "word_path (fst x) = p"
      using mem(1) [OF x] by auto
    moreover have "isValidWord (fst x)"
      using \<open>x \<in> set xs\<close> assms by (auto simp: alphabetic_def)
    ultimately show ?thesis
      using path_letters_word_path [of "fst x"] by auto
  qed
  have "word_path ` fst ` set xs = map letter_index ` (strtolower ` fst ` set xs)"
    by (auto simp: word_path_def image_image)
  moreover have "inj_on (map letter_index) (strtolower ` fst ` set xs)"
  proof (rule inj_onI)
    fix a b assume a: "a \<in> strtolower ` fst ` set xs" and b: "b \<in> strtolower ` fst ` set xs"
      and eq: "map letter_index a = map letter_index b"
    have "\<forall>c \<in> set a. lower_letter c" "\<forall>c \<in> set b. lower_letter c"
      using a b assms strtolower_lower_letters by (auto simp: alphabetic_def)
    then have "inj_on letter_index (set a \<union> set b)"
      by (intro inj_onI) (auto intro: letter_index_inj)
    then show "a = b"
      using eq by (rule inj_on_map_eq_map [THEN iffD1])
  qed
  ultimately have "card (word_path ` fst ` set xs) = card (strtolower ` fst ` set xs)"
    by (simp add: card_image)
  with store paths spell show ?thesis by auto
qed

theorem terminal_nodes_are_the_inserted_words_witness:
  "\<exists>store. insertWords createTrieNode [(''Hi'', 1), (''a'', 2), (''hI'', 3)] = Inr store \<and>
           {p. \<exists>n. node_at store p = Some n \<and> isEndOfWord n} = {[7, 8], [0]} \<and>
           card {p. \<exists>n. node_at store p = Some n \<and> isEndOfWord n} = 2"
proof -
  let ?xs = "[(''Hi'', 1::int), (''a'', 2), (''hI'', 3)]"
  have valid: "\<forall>x \<in> set ?xs. alphabetic (fst x)"
    by code_simp
  have paths: "word_path ` fst ` set ?xs = {[7, 8], [0]}"
    by code_simp
  have words: "strtolower ` fst ` set ?xs = {''hi'', ''a''}"
    by code_simp
  have "card {''hi'', ''a''} = 2"
    by simp
  then show ?thesis
    using terminal_nodes_are_the_inserted_words [OF valid]
    unfolding paths words by auto
qed

section \<open>Prefix search on a built store\<close>

lemma prefix_map_inj:
  assumes "inj_on g (set a \<union> set b)" and "prefix (map g a) (map g b)"
  shows "prefix a b"
proof -
  from assms(2) obtain zs where "map g b = map g a @ zs"
    by (auto simp: prefix_def)
  then have "take (length a) (map g b) = map g a"
    by simp
  then have eq: "map g (take (length a) b) = map g a"
    by (simp add: take_map)
  have "set (take (length a) b) \<subseteq> set b"
    by (rule set_take_subset)
  then have "inj_on g (set (take (length a) b) \<union> set a)"
    using assms(1) by (auto intro: inj_on_subset)
  then have "take (length a) b = a"
    using eq by (rule inj_on_map_eq_map [THEN iffD1])
  then show ?thesis
    by (metis take_is_prefix)
qed

lemma walk_stored:
  assumes "trie_inv r" and "\<forall>c \<in> set lw. lower_letter c"
  shows "(walk r lw = Inr None \<and> (\<forall>q. stored r (map letter_index lw @ q) = None)) \<or>
         (\<exists>n. walk r lw = Inr (Some n) \<and> trie_inv n \<and>
              (\<forall>q. stored n q = stored r (map letter_index lw @ q)))"
  using assms
proof (induction lw arbitrary: r)
  case Nil
  then show ?case by simp
next
  case (Cons c lw)
  obtain ch e w f where r: "r = TrieNode ch e w f" by (cases r)
  let ?k = "letter_index c"
  have c: "lower_letter c" and lw: "\<forall>c \<in> set lw. lower_letter c"
    using Cons.prems(2) by auto
  have k: "?k < length ch"
    using lower_letter_index(2) [OF c] Cons.prems(1) by (simp add: r)
  show ?case
  proof (cases "ch ! ?k")
    case None
    then show ?thesis
      using lower_letter_index(1,3) [OF c] k by (simp add: r Let_def)
  next
    case (Some child)
    then have "Some child \<in> set ch" using k nth_mem by fastforce
    then have "trie_inv child" using Cons.prems(1) by (auto simp: r)
    from Cons.IH [OF this lw] show ?thesis
      using lower_letter_index(1,3) [OF c] k Some by (simp add: r Let_def)
  qed
qed

lemma subtree_entries_node:
  "subtree_entries (TrieNode ch e w f) =
     (if e then (case w of None \<Rightarrow> {}
                 | Some original \<Rightarrow> {\<lparr>word = original, distance = 0, frequency = f\<rparr>})
      else {}) \<union> children_entries ch"
proof (intro set_eqI iffI)
  fix s assume "s \<in> subtree_entries (TrieNode ch e w f)"
  then obtain w' f' q where s: "s = \<lparr>word = w', distance = 0, frequency = f'\<rparr>"
    and st: "stored (TrieNode ch e w f) q = Some (w', f')"
    by (auto simp: subtree_entries_def)
  show "s \<in> (if e then (case w of None \<Rightarrow> {}
                 | Some original \<Rightarrow> {\<lparr>word = original, distance = 0, frequency = f\<rparr>})
      else {}) \<union> children_entries ch"
  proof (cases q)
    case Nil
    then show ?thesis using st s by (auto split: if_splits)
  next
    case (Cons i q')
    with st obtain child where i: "i < length ch" "ch ! i = Some child"
      and "stored child q' = Some (w', f')"
      by (auto split: if_splits option.splits)
    then have "s \<in> subtree_entries child" "Some child \<in> set ch"
      using s nth_mem by (fastforce simp: subtree_entries_def)+
    then show ?thesis by (force simp: children_entries_def)
  qed
next
  fix s assume "s \<in> (if e then (case w of None \<Rightarrow> {}
                 | Some original \<Rightarrow> {\<lparr>word = original, distance = 0, frequency = f\<rparr>})
      else {}) \<union> children_entries ch"
  then consider (here) original where "e" "w = Some original"
      "s = \<lparr>word = original, distance = 0, frequency = f\<rparr>"
    | (below) child where "Some child \<in> set ch" "s \<in> subtree_entries child"
    by (auto simp: children_entries_def split: if_splits option.splits)
  then show "s \<in> subtree_entries (TrieNode ch e w f)"
  proof cases
    case here
    then have "stored (TrieNode ch e w f) [] = Some (original, f)" by simp
    then show ?thesis using here(3) unfolding subtree_entries_def by blast
  next
    case below
    then obtain i where i: "i < length ch" "ch ! i = Some child"
      by (auto simp: in_set_conv_nth)
    from below(2) obtain w' f' q where s: "s = \<lparr>word = w', distance = 0, frequency = f'\<rparr>"
      and "stored child q = Some (w', f')"
      by (auto simp: subtree_entries_def)
    then have "stored (TrieNode ch e w f) (i # q) = Some (w', f')"
      using i by simp
    then show ?thesis using s unfolding subtree_entries_def by blast
  qed
qed

lemma children_entries_simps [simp]:
  "children_entries [] = {}"
  "children_entries (None # cs) = children_entries cs"
  "children_entries (Some n # cs) = subtree_entries n \<union> children_entries cs"
  by (simp_all add: children_entries_def)

lemma addSuggestion_not_Nil: "addSuggestion list w d f \<noteq> []"
proof (cases "length list < MAX_SUGGESTIONS")
  case True
  then show ?thesis by (simp add: addSuggestion_def)
next
  case False
  then have "list \<noteq> []" by (auto simp: MAX_SUGGESTIONS_def)
  then show ?thesis using False by (simp add: addSuggestion_def Let_def)
qed

lemma collected_refl: "collected acc {} acc"
  by (simp add: collected_def)

lemma collected_trans:
  "collected a new1 b \<Longrightarrow> collected b new2 c \<Longrightarrow> collected a (new1 \<union> new2) c"
  by (auto simp: collected_def)

lemma collected_addSuggestion:
  "collected acc {\<lparr>word = w, distance = d, frequency = f\<rparr>} (addSuggestion acc w d f)"
  using set_addSuggestion [of acc w d f] length_addSuggestion [of acc w d f]
    addSuggestion_not_Nil [of acc w d f]
  by (auto simp: collected_def)

lemma collectSuggestions_collected:
  "trie_inv n \<Longrightarrow>
     \<exists>acc'. collectSuggestions n pfx acc = Inr acc' \<and> collected acc (subtree_entries n) acc'"
  and "\<forall>c \<in> set cs. (case c of None \<Rightarrow> True | Some n \<Rightarrow> trie_inv n) \<Longrightarrow>
     \<exists>acc'. collectSuggestions_loop cs pfx acc = Inr acc' \<and>
            collected acc (children_entries cs) acc'"
proof (induction n pfx acc and cs pfx acc rule: collectSuggestions_collectSuggestions_loop.induct)
  case (1 ch e w f pfx suggestions)
  have kids: "\<forall>c \<in> set ch. (case c of None \<Rightarrow> True | Some n \<Rightarrow> trie_inv n)"
    using "1.prems" by simp
  show ?case
  proof (cases e)
    case False
    from "1.IH"(2) [OF False kids] show ?thesis
      using False by (simp add: subtree_entries_node)
  next
    case True
    then obtain original where w: "w = Some original"
      using "1.prems" by auto
    from "1.IH"(1) [OF True w kids] obtain acc' where
      "collectSuggestions_loop ch pfx (addSuggestion suggestions original 0 f) = Inr acc'"
      "collected (addSuggestion suggestions original 0 f) (children_entries ch) acc'"
      by blast
    then show ?thesis
      using True w collected_trans [OF collected_addSuggestion, of suggestions original 0 f]
      by (auto simp: subtree_entries_node)
  qed
next
  case (2 pfx suggestions)
  show ?case by (simp add: collected_refl)
next
  case (3 rest pfx suggestions)
  then show ?case by simp
next
  case (4 child rest pfx suggestions)
  have "trie_inv child" using "4.prems" by simp
  from "4.IH"(1) [OF this] obtain acc1 where
    a1: "collectSuggestions child pfx suggestions = Inr acc1"
    and c1: "collected suggestions (subtree_entries child) acc1"
    by blast
  have "\<forall>c \<in> set rest. (case c of None \<Rightarrow> True | Some n \<Rightarrow> trie_inv n)"
    using "4.prems" by simp
  from "4.IH"(2) [OF a1 this] obtain acc' where
    "collectSuggestions_loop rest pfx acc1 = Inr acc'"
    "collected acc1 (children_entries rest) acc'"
    by blast
  then show ?case
    using a1 collected_trans [OF c1] by auto
qed

lemma keep_best_not_None: "keep_best old x \<noteq> None"
  by (cases old; cases x) auto

lemma no_dead_ends_create: "no_dead_ends createTrieNode"
  by (simp add: createTrieNode_def)

lemma insertWord_from_no_dead_ends:
  assumes "trie_inv r" and "no_dead_ends r" and "\<forall>c \<in> set lw. lower_letter c"
    and "insertWord_from r lw orig freq = Inr r'"
  shows "no_dead_ends r'"
  using assms
proof (induction lw arbitrary: r r')
  case Nil
  obtain ch e w f where r: "r = TrieNode ch e w f" by (cases r)
  show ?case using Nil.prems(2,4) by (auto simp: r split: if_splits)
next
  case (Cons c lw)
  obtain ch e w f where r: "r = TrieNode ch e w f" by (cases r)
  let ?k = "letter_index c"
  let ?child = "case ch ! ?k of None \<Rightarrow> createTrieNode | Some child \<Rightarrow> child"
  have c: "lower_letter c" and lw: "\<forall>c \<in> set lw. lower_letter c"
    using Cons.prems(3) by auto
  have k: "?k < length ch"
    using lower_letter_index(2) [OF c] Cons.prems(1) by (simp add: r)
  have inv: "trie_inv ?child" using trie_inv_child [OF _ k] Cons.prems(1) r by blast
  have live: "no_dead_ends ?child"
  proof (cases "ch ! ?k")
    case None
    then show ?thesis by (simp add: no_dead_ends_create)
  next
    case (Some child)
    then have "Some child \<in> set ch" using k nth_mem by fastforce
    then show ?thesis using Cons.prems(2) Some by (auto simp: r)
  qed
  from insertWord_from_stored [OF inv lw, of orig freq] obtain child' where
    ins': "insertWord_from ?child lw orig freq = Inr child'"
    and st': "stored child' (map letter_index lw)
                = keep_best (stored ?child (map letter_index lw)) (orig, freq)"
    by auto
  have r': "r' = TrieNode (ch[?k := Some child']) e w f"
    using Cons.prems(4) lower_letter_index(1,3) [OF c] ins' by (simp add: r Let_def)
  have new: "(\<exists>q. stored child' q \<noteq> None) \<and> no_dead_ends child'"
    using Cons.IH [OF inv live lw ins'] st' keep_best_not_None by metis
  have "case x of None \<Rightarrow> True | Some n \<Rightarrow> (\<exists>q. stored n q \<noteq> None) \<and> no_dead_ends n"
    if "x \<in> set (ch[?k := Some child'])" for x
  proof -
    have "x \<in> insert (Some child') (set ch)"
      using that set_update_subset_insert [of ch ?k "Some child'"] by blast
    then consider "x = Some child'" | "x \<in> set ch" by blast
    then show ?thesis
    proof cases
      case 1
      then show ?thesis using new by simp
    next
      case 2
      then show ?thesis using Cons.prems(2) unfolding r by simp
    qed
  qed
  then show ?case
    unfolding r' by simp
qed

lemma insertWords_no_dead_ends:
  assumes "trie_inv r" and "no_dead_ends r" and "\<forall>x \<in> set xs. alphabetic (fst x)"
    and "insertWords r xs = Inr r'"
  shows "no_dead_ends r'"
  using assms
proof (induction xs arbitrary: r)
  case Nil
  then show ?case by simp
next
  case (Cons x xs)
  obtain w f where x: "x = (w, f)" by (cases x)
  have w: "alphabetic w" using Cons.prems(3) x by simp
  from insertWord_stored [OF Cons.prems(1) w, of f] obtain r1 where
    r1: "insertWord r w f = Inr r1" and inv1: "trie_inv r1"
    by blast
  have ins: "insertWord_from r (strtolower w) w f = Inr r1"
    using r1 w by (simp add: insertWord_def alphabetic_def)
  have "\<forall>c \<in> set (strtolower w). lower_letter c"
    using strtolower_lower_letters [of w] w by (auto simp: alphabetic_def)
  then have live1: "no_dead_ends r1"
    using insertWord_from_no_dead_ends [OF Cons.prems(1,2) _ ins] by blast
  show ?case
    using Cons.IH [OF inv1 live1] Cons.prems(3,4) r1 by (simp add: x)
qed

lemma walk_no_dead_ends:
  assumes "trie_inv r" and "no_dead_ends r" and "\<forall>c \<in> set lw. lower_letter c"
    and "lw \<noteq> []" and "walk r lw = Inr (Some n)"
  shows "\<exists>q. stored n q \<noteq> None"
  using assms
proof (induction lw arbitrary: r)
  case Nil
  then show ?case by simp
next
  case (Cons c lw)
  obtain ch e w f where r: "r = TrieNode ch e w f" by (cases r)
  let ?k = "letter_index c"
  have c: "lower_letter c" and lw: "\<forall>c \<in> set lw. lower_letter c"
    using Cons.prems(3) by auto
  have k: "?k < length ch"
    using lower_letter_index(2) [OF c] Cons.prems(1) by (simp add: r)
  from Cons.prems(5) obtain child where child: "ch ! ?k = Some child"
    and w: "walk child lw = Inr (Some n)"
    using lower_letter_index(1,3) [OF c] by (auto simp: r Let_def split: option.splits)
  have mem: "Some child \<in> set ch" using k child nth_mem by fastforce
  then have inv: "trie_inv child" and live: "no_dead_ends child"
    and some: "\<exists>q. stored child q \<noteq> None"
    using Cons.prems(1,2) by (auto simp: r)
  show ?case
  proof (cases "lw = []")
    case True
    then show ?thesis using w some by simp
  next
    case False
    show ?thesis using Cons.IH [OF inv live lw False w] .
  qed
qed

lemma compareSuggestions_prefix:
  assumes "distance a = 0" "distance b = 0" "0 \<le> frequency a" "frequency a \<le> INT_MAX"
    "0 \<le> frequency b" "frequency b \<le> INT_MAX"
  shows "(compareSuggestions a b \<le> 0) = (- frequency a \<le> - frequency b)"
proof -
  have "wrap_int32 (frequency b - frequency a) = frequency b - frequency a"
    using assms by (intro wrap_int32_small) (simp_all add: INT_MAX_def)
  then show ?thesis using assms by (simp add: compareSuggestions_def)
qed

lemma qsort_Nil_iff [simp]: "qsort compar xs = [] \<longleftrightarrow> xs = []"
  using length_qsort [of compar xs] by (metis length_0_conv)

lemma searchWordsByPrefix_cases:
  assumes "trie_inv r" and "isValidWord pfx"
  shows "(searchWordsByPrefix r pfx = Inr No_suggestions_found \<and>
            (\<forall>q. stored r (word_path pfx @ q) = None)) \<or>
         (\<exists>acc. acc \<noteq> [] \<and> length acc \<le> MAX_SUGGESTIONS \<and>
            set acc \<subseteq> {\<lparr>word = w, distance = 0, frequency = f\<rparr> | w f.
                           \<exists>q. stored r (word_path pfx @ q) = Some (w, f)} \<and>
            searchWordsByPrefix r pfx =
              Inr (Suggestions_for (take MAX_SUGGESTIONS (qsort compareSuggestions acc))))"
proof -
  have lw: "\<forall>c \<in> set (strtolower pfx). lower_letter c"
    using assms(2) by (rule strtolower_lower_letters)
  from walk_stored [OF assms(1) lw]
  consider (absent) "walk r (strtolower pfx) = Inr None"
      "\<forall>q. stored r (word_path pfx @ q) = None"
    | (node) n where "walk r (strtolower pfx) = Inr (Some n)" "trie_inv n"
      "\<forall>q. stored n q = stored r (word_path pfx @ q)"
    by (auto simp: word_path_def)
  then show ?thesis
  proof cases
    case absent
    then show ?thesis by (simp add: searchWordsByPrefix_def)
  next
    case node
    from collectSuggestions_collected(1) [OF node(2), of pfx initSuggestionList]
    obtain acc where acc: "collectSuggestions n pfx initSuggestionList = Inr acc"
      and col: "collected [] (subtree_entries n) acc"
      by (auto simp: initSuggestionList_def)
    have entries: "subtree_entries n = {\<lparr>word = w, distance = 0, frequency = f\<rparr> | w f.
                           \<exists>q. stored r (word_path pfx @ q) = Some (w, f)}"
      by (simp add: subtree_entries_def node(3))
    show ?thesis
    proof (cases "acc = []")
      case True
      then have "subtree_entries n = {}" using col by (simp add: collected_def)
      then have "\<forall>q. stored r (word_path pfx @ q) = None"
        unfolding entries by (auto simp: not_Some_eq [symmetric] simp del: not_Some_eq not_None_eq)
      moreover have "searchWordsByPrefix r pfx = Inr No_suggestions_found"
        using node(1) acc True by (simp add: searchWordsByPrefix_def qsort_def)
      ultimately show ?thesis by blast
    next
      case False
      have "length acc \<le> MAX_SUGGESTIONS" "set acc \<subseteq> subtree_entries n"
        using col by (auto simp: collected_def)
      moreover have "searchWordsByPrefix r pfx =
              Inr (Suggestions_for (take MAX_SUGGESTIONS (qsort compareSuggestions acc)))"
        using node(1) acc False by (simp add: searchWordsByPrefix_def Let_def)
      ultimately show ?thesis using False entries by blast
    qed
  qed
qed

lemma stored_below_prefix_iff:
  assumes "\<forall>x \<in> set xs. alphabetic (fst x)" and "insertWords createTrieNode xs = Inr store"
    and "isValidWord pfx"
  shows "(\<exists>q. stored store (word_path pfx @ q) \<noteq> None) \<longleftrightarrow>
         (\<exists>x \<in> set xs. prefix (strtolower pfx) (strtolower (fst x)))"
proof
  note mem = insertWords_stored_member [OF assms(1,2)]
  assume "\<exists>q. stored store (word_path pfx @ q) \<noteq> None"
  then obtain q x where "stored store (word_path pfx @ q) = Some x" by auto
  from mem(1) [OF this] have x: "x \<in> set xs" and p: "word_path (fst x) = word_path pfx @ q"
    by auto
  have "\<forall>c \<in> set (strtolower pfx). lower_letter c" "\<forall>c \<in> set (strtolower (fst x)). lower_letter c"
    using strtolower_lower_letters assms(1,3) x by (auto simp: alphabetic_def)
  then have "inj_on letter_index (set (strtolower pfx) \<union> set (strtolower (fst x)))"
    by (intro inj_onI) (auto intro: letter_index_inj)
  moreover have "prefix (map letter_index (strtolower pfx)) (map letter_index (strtolower (fst x)))"
    using p by (simp add: word_path_def)
  ultimately have "prefix (strtolower pfx) (strtolower (fst x))"
    by (rule prefix_map_inj)
  then show "\<exists>x \<in> set xs. prefix (strtolower pfx) (strtolower (fst x))"
    using x by blast
next
  note mem = insertWords_stored_member [OF assms(1,2)]
  assume "\<exists>x \<in> set xs. prefix (strtolower pfx) (strtolower (fst x))"
  then obtain x zs where x: "x \<in> set xs" and "strtolower (fst x) = strtolower pfx @ zs"
    by (auto simp: prefix_def)
  then have "word_path (fst x) = word_path pfx @ map letter_index zs"
    by (simp add: word_path_def)
  moreover have "stored store (word_path (fst x)) \<noteq> None"
    using mem(2) x by blast
  ultimately show "\<exists>q. stored store (word_path pfx @ q) \<noteq> None"
    by metis
qed

text \<open>
  C9. On a store built by insertions of alphabetic words, the search for an alphabetic
  prefix returns without error, and it reports "No suggestions found" if and only if no
  inserted word starts, case-insensitively, with the prefix. The menu step of \<open>main\<close>
  leaves the state as it was and, in exactly that case, goes on to spelling correction.
\<close>

theorem searchWordsByPrefix_not_found_iff:
  assumes "\<forall>x \<in> set xs. alphabetic (fst x)" and "alphabetic pfx"
  shows "\<exists>store out. insertWords createTrieNode xs = Inr store \<and>
           searchWordsByPrefix store pfx = Inr out \<and>
           (out = No_suggestions_found \<longleftrightarrow>
              \<not> (\<exists>x \<in> set xs. prefix (strtolower pfx) (strtolower (fst x)))) \<and>
           main_menu alloc strdup_addr \<lparr>main_root = store, main_dict = d\<rparr> (Search_by_prefix pfx) =
             Inr (\<lparr>main_root = store, main_dict = d\<rparr>,
                  if out = No_suggestions_found
                  then Spell_correction (suggestSimilarWords alloc pfx d)
                  else Prefix_suggestions out)"
proof -
  from insertWords_stored [OF trie_inv_create assms(1)] obtain store where
    store: "insertWords createTrieNode xs = Inr store"
    by blast
  note mem = insertWords_stored_member [OF assms(1) store]
  have pfx: "isValidWord pfx" "pfx \<noteq> []"
    using assms(2) by (auto simp: alphabetic_def)
  have lw: "\<forall>c \<in> set (strtolower pfx). lower_letter c" "strtolower pfx \<noteq> []"
    using strtolower_lower_letters [OF pfx(1)] pfx(2)
    by (auto simp: strtolower_def toLowerCase_def)
  have live: "no_dead_ends store"
    using insertWords_no_dead_ends [OF trie_inv_create no_dead_ends_create assms(1) store] .
  note below = stored_below_prefix_iff [OF assms(1) store pfx(1)]
  let ?st = "\<lparr>main_root = store, main_dict = d\<rparr>"
  from searchWordsByPrefix_cases [OF mem(3) pfx(1)]
  consider (none) "searchWordsByPrefix store pfx = Inr No_suggestions_found"
      "\<forall>q. stored store (word_path pfx @ q) = None"
    | (some) acc where "acc \<noteq> []"
      "set acc \<subseteq> {\<lparr>word = w, distance = 0, frequency = f\<rparr> | w f.
                           \<exists>q. stored store (word_path pfx @ q) = Some (w, f)}"
      "searchWordsByPrefix store pfx =
         Inr (Suggestions_for (take MAX_SUGGESTIONS (qsort compareSuggestions acc)))"
    by blast
  then show ?thesis
  proof cases
    case none
    have no_word: "\<not> (\<exists>x \<in> set xs. prefix (strtolower pfx) (strtolower (fst x)))"
      using below none(2) by simp
    have "walk store (strtolower pfx) = Inr None"
    proof -
      from walk_stored [OF mem(3) lw(1)] consider "walk store (strtolower pfx) = Inr None"
        | n where "walk store (strtolower pfx) = Inr (Some n)"
          "\<forall>q. stored n q = stored store (word_path pfx @ q)"
        by (auto simp: word_path_def)
      then show ?thesis
      proof cases
        case 2
        from walk_no_dead_ends [OF mem(3) live lw 2(1)] obtain q where "stored n q \<noteq> None"
          by blast
        then show ?thesis using 2(2) none(2) by simp
      qed
    qed
    then have "main_menu alloc strdup_addr ?st (Search_by_prefix pfx) =
                 Inr (?st, Spell_correction (suggestSimilarWords alloc pfx d))"
      using pfx(1) by (simp add: main_menu_def)
    then show ?thesis
      using store none(1) no_word by simp
  next
    case some
    let ?out = "Suggestions_for (take MAX_SUGGESTIONS (qsort compareSuggestions acc))"
    obtain s where "s \<in> set acc" using some(1) by (cases acc) auto
    then have "s \<in> {\<lparr>word = w, distance = 0, frequency = f\<rparr> | w f.
                           \<exists>q. stored store (word_path pfx @ q) = Some (w, f)}"
      using some(2) by (rule subsetD [rotated])
    then have ex: "\<exists>q. stored store (word_path pfx @ q) \<noteq> None"
      by force
    then have word: "\<exists>x \<in> set xs. prefix (strtolower pfx) (strtolower (fst x))"
      using below by simp
    have "\<exists>n. walk store (strtolower pfx) = Inr (Some n)"
      using walk_stored [OF mem(3) lw(1)] ex by (auto simp: word_path_def)
    then have "main_menu alloc strdup_addr ?st (Search_by_prefix pfx) =
                 Inr (?st, Prefix_suggestions ?out)"
      using pfx(1) some(3) by (auto simp: main_menu_def)
    then show ?thesis
      using store some(3) word by simp
  qed
qed

theorem searchWordsByPrefix_not_found_iff_witness:
  "\<exists>store. insertWords createTrieNode [(''Hello'', 5)] = Inr store \<and>
     searchWordsByPrefix store ''x'' = Inr No_suggestions_found \<and>
     main_menu enough_memory ascending_addresses \<lparr>main_root = store, main_dict = [''Hello'']\<rparr>
         (Search_by_prefix ''x'') =
       Inr (\<lparr>main_root = store, main_dict = [''Hello'']\<rparr>, Spell_correction [])"
proof -
  have valid: "\<forall>x \<in> set [(''Hello'', 5::int)]. alphabetic (fst x)" "alphabetic ''x''"
    by code_simp+
  have none: "\<not> (\<exists>x \<in> set [(''Hello'', 5::int)]. prefix (strtolower ''x'') (strtolower (fst x)))"
    by code_simp
  have fuzzy: "suggestSimilarWords enough_memory ''x'' [''Hello''] = []"
    by code_simp
  from searchWordsByPrefix_not_found_iff
         [OF valid, of enough_memory ascending_addresses "[''Hello'']"]
  show ?thesis
    unfolding fuzzy using none by auto
qed

text \<open>
  C5. On a store built by insertions of alphabetic words with frequencies from 0 to
  \<open>INT_MAX\<close>, the search for an alphabetic prefix lists at most ten suggestions; each
  is an inserted word that starts, case-insensitively, with the prefix, at distance 0;
  and their frequencies never increase along the list.
\<close>

theorem searchWordsByPrefix_suggestions:
  assumes "\<forall>x \<in> set xs. alphabetic (fst x) \<and> 0 \<le> snd x \<and> snd x \<le> INT_MAX"
    and "isValidWord pfx"
  shows "\<exists>store result. insertWords createTrieNode xs = Inr store \<and>
           searchWordsByPrefix store pfx = Inr result \<and>
           (\<forall>out. result = Suggestions_for out \<longrightarrow>
              length out \<le> 10 \<and>
              (\<forall>s \<in> set out. prefix (strtolower pfx) (strtolower (word s)) \<and>
                              (word s, frequency s) \<in> set xs \<and> distance s = 0) \<and>
              sorted_wrt (\<lambda>a b. frequency b \<le> frequency a) out)"
proof -
  have valid: "\<forall>x \<in> set xs. alphabetic (fst x)" using assms(1) by blast
  from insertWords_stored [OF trie_inv_create valid] obtain store where
    store: "insertWords createTrieNode xs = Inr store"
    by blast
  note mem = insertWords_stored_member [OF valid store]
  have lw: "\<forall>c \<in> set (strtolower pfx). lower_letter c"
    using strtolower_lower_letters [OF assms(2)] .
  from searchWordsByPrefix_cases [OF mem(3) assms(2)]
  consider (none) "searchWordsByPrefix store pfx = Inr No_suggestions_found"
    | (some) acc where "length acc \<le> MAX_SUGGESTIONS"
      "set acc \<subseteq> {\<lparr>word = w, distance = 0, frequency = f\<rparr> | w f.
                           \<exists>q. stored store (word_path pfx @ q) = Some (w, f)}"
      "searchWordsByPrefix store pfx =
         Inr (Suggestions_for (take MAX_SUGGESTIONS (qsort compareSuggestions acc)))"
    by blast
  then show ?thesis
  proof cases
    case none
    then show ?thesis using store by simp
  next
    case some
    let ?out = "take MAX_SUGGESTIONS (qsort compareSuggestions acc)"
    have entry: "prefix (strtolower pfx) (strtolower (word s)) \<and>
                 (word s, frequency s) \<in> set xs \<and> distance s = 0" if "s \<in> set acc" for s
    proof -
      from that some(2) have "s \<in> {\<lparr>word = w, distance = 0, frequency = f\<rparr> | w f.
                           \<exists>q. stored store (word_path pfx @ q) = Some (w, f)}"
        by (rule subsetD [rotated])
      then obtain q where st: "stored store (word_path pfx @ q) = Some (word s, frequency s)"
        and d: "distance s = 0"
        by force
      from mem(1) [OF st] have x: "(word s, frequency s) \<in> set xs"
        and p: "word_path (word s) = word_path pfx @ q"
        by auto
      have "\<forall>c \<in> set (strtolower (word s)). lower_letter c"
        using strtolower_lower_letters valid x by (force simp: alphabetic_def)
      then have "inj_on letter_index (set (strtolower pfx) \<union> set (strtolower (word s)))"
        using lw by (intro inj_onI) (auto intro: letter_index_inj)
      moreover have "prefix (map letter_index (strtolower pfx))
                            (map letter_index (strtolower (word s)))"
        using p by (simp add: word_path_def)
      ultimately have "prefix (strtolower pfx) (strtolower (word s))"
        by (rule prefix_map_inj)
      then show ?thesis using x d by simp
    qed
    have range: "0 \<le> frequency s \<and> frequency s \<le> INT_MAX" if "s \<in> set acc" for s
      using entry [OF that] assms(1) by force
    have "sorted_wrt (\<lambda>a b. - frequency a \<le> - frequency b) (qsort compareSuggestions acc)"
      by (rule sorted_qsort) (use entry range in \<open>simp add: compareSuggestions_prefix\<close>)
    then have sorted: "sorted_wrt (\<lambda>a b. frequency b \<le> frequency a) ?out"
      by (simp add: sorted_wrt_take)
    have "length ?out \<le> 10"
      by (simp add: MAX_SUGGESTIONS_def)
    moreover have "\<forall>s \<in> set ?out. prefix (strtolower pfx) (strtolower (word s)) \<and>
                              (word s, frequency s) \<in> set xs \<and> distance s = 0"
      using entry by (auto dest!: in_set_takeD)
    ultimately show ?thesis
      using store some(3) sorted by simp
  qed
qed

theorem searchWordsByPrefix_suggestions_witness:
  "\<exists>store. insertWords createTrieNode [(''apple'', 5), (''apt'', 1), (''App'', 3), (''bee'', 9)]
            = Inr store \<and>
     searchWordsByPrefix store ''Ap'' =
       Inr (Suggestions_for [\<lparr>word = ''apple'', distance = 0, frequency = 5\<rparr>,
                             \<lparr>word = ''App'', distance = 0, frequency = 3\<rparr>,
                             \<lparr>word = ''apt'', distance = 0, frequency = 1\<rparr>]) \<and>
     prefix (strtolower ''Ap'') (strtolower ''App'') \<and>
     sorted_wrt (\<lambda>a b. frequency b \<le> frequency a)
       [\<lparr>word = ''apple'', distance = 0, frequency = 5\<rparr>,
        \<lparr>word = ''App'', distance = 0, frequency = 3\<rparr>,
        \<lparr>word = ''apt'', distance = 0, frequency = 1\<rparr>]"
proof -
  let ?xs = "[(''apple'', 5::int), (''apt'', 1), (''App'', 3), (''bee'', 9)]"
  let ?out = "[\<lparr>word = ''apple'', distance = 0, frequency = 5\<rparr>,
               \<lparr>word = ''App'', distance = 0, frequency = 3\<rparr>,
               \<lparr>word = ''apt'', distance = 0, frequency = 1\<rparr>]"
  have valid: "\<forall>x \<in> set ?xs. alphabetic (fst x) \<and> 0 \<le> snd x \<and> snd x \<le> INT_MAX"
    "isValidWord ''Ap''"
    by code_simp+
  have run: "(case insertWords createTrieNode ?xs of
                Inl err \<Rightarrow> Inl err
              | Inr store \<Rightarrow> searchWordsByPrefix store ''Ap'') = Inr (Suggestions_for ?out)"
    by code_simp
  from searchWordsByPrefix_suggestions [OF valid] obtain store result where
    store: "insertWords createTrieNode ?xs = Inr store"
    and result: "searchWordsByPrefix store ''Ap'' = Inr result"
    and props: "\<forall>out. result = Suggestions_for out \<longrightarrow>
              length out \<le> 10 \<and>
              (\<forall>s \<in> set out. prefix (strtolower ''Ap'') (strtolower (word s)) \<and>
                              (word s, frequency s) \<in> set ?xs \<and> distance s = 0) \<and>
              sorted_wrt (\<lambda>a b. frequency b \<le> frequency a) out"
    by blast
  have "result = Suggestions_for ?out"
    using run store result by simp
  with props have "(\<forall>s \<in> set ?out. prefix (strtolower ''Ap'') (strtolower (word s))) \<and>
              sorted_wrt (\<lambda>a b. frequency b \<le> frequency a) ?out"
    by blast
  then show ?thesis
    using store result \<open>result = Suggestions_for ?out\<close> by simp
qed

section \<open>Listing\<close>

lemma cells:
  "cell_as_string (ascending_addresses 0) = [160, 130, 85, 85, 85, 85]"
  "cell_as_string (ascending_addresses 1) = [192, 130, 85, 85, 85, 85]"
  "cell_as_string (ascending_addresses (Suc 0)) = [192, 130, 85, 85, 85, 85]"
  "cell_as_string (ascending_addresses (Suc (Suc 0))) = [224, 130, 85, 85, 85, 85]"
  by (simp_all add: cell_as_string_def pointer_bytes_def ascending_addresses_def upt_rec)

text \<open>
  C1 is not what the listing does. \<open>show_all_words\<close> orders the words by the bytes of
  the addresses their copies were allocated at. With ascending addresses the words
  "Banana", "apple", "Cherry" are listed as apple, Banana, Cherry, the order in which the
  tree is traversed, although "Banana" precedes "apple" in byte order.
\<close>

theorem show_all_words_pointer_order:
  "\<exists>store. insertWords createTrieNode [(''Banana'', 1), (''apple'', 1), (''Cherry'', 1)] = Inr store \<and>
     show_all_words ascending_addresses store = [''apple'', ''Banana'', ''Cherry''] \<and>
     strcmp (map of_char ''Banana'') (map of_char ''apple'') < 0"
proof -
  have "(case insertWords createTrieNode [(''Banana'', 1), (''apple'', 1), (''Cherry'', 1)] of
           Inl err \<Rightarrow> None
         | Inr store \<Rightarrow> Some (collectAllWords store []))
        = Some [''apple'', ''Banana'', ''Cherry'']"
    by code_simp
  then obtain store where
    store: "insertWords createTrieNode [(''Banana'', 1), (''apple'', 1), (''Cherry'', 1)] = Inr store"
    and all: "collectAllWords store [] = [''apple'', ''Banana'', ''Cherry'']"
    by (auto split: sum.splits)
  have idx: "[0..<3] = [0, Suc 0, Suc (Suc 0)]"
    by (simp add: upt_rec)
  have "show_all_words ascending_addresses store = [''apple'', ''Banana'', ''Cherry'']"
    by (simp add: show_all_words_def all Let_def idx qsort_def cells)
  moreover have "strcmp (map of_char ''Banana'') (map of_char ''apple'') < 0"
    by simp
  ultimately show ?thesis using store by blast
qed

section \<open>What the traversals leave in the heap\<close>

lemma kept_refl: "kept h h"
  by (simp add: kept_def)

lemma kept_absent:
  assumes "kept h0 h" and "heap_read h a = None"
  shows "heap_read h0 a = None"
proof (cases "heap_read h0 a")
  case None
  then show ?thesis .
next
  case (Some c)
  with assms(1) have "heap_read h a = Some c" by (simp add: kept_def)
  with assms(2) show ?thesis by simp
qed

lemma kept_update:
  assumes "kept h0 h" and "heap_read h0 a = None"
  shows "kept h0 (h[a := x])"
  unfolding kept_def
proof (intro allI impI)
  fix b c
  assume b: "heap_read h0 b = Some c"
  with assms(2) have "b \<noteq> a" by auto
  moreover from assms(1) b have "heap_read h b = Some c" by (simp add: kept_def)
  ultimately show "heap_read (h[a := x]) b = Some c"
    by (auto simp: heap_read_def split: if_splits)
qed

lemma kept_append:
  assumes "kept h0 h"
  shows "kept h0 (h @ zs)"
  unfolding kept_def
proof (intro allI impI)
  fix b c
  assume "heap_read h0 b = Some c"
  with assms have "heap_read h b = Some c" by (simp add: kept_def)
  then show "heap_read (h @ zs) b = Some c"
    by (auto simp: heap_read_def nth_append split: if_splits)
qed

lemma heap_alloc_kept:
  assumes "kept h0 h" and "heap_alloc pick h c = (a, h')"
  shows "kept h0 h' \<and> heap_read h0 a = None"
proof (cases "pick h < length h \<and> h ! pick h = None")
  case True
  with assms(2) have a: "a = pick h" and h': "h' = h[a := Some c]"
    by (auto simp: heap_alloc_def Let_def)
  from True a have "heap_read h a = None" by (simp add: heap_read_def)
  then have "heap_read h0 a = None" using kept_absent assms(1) by blast
  then show ?thesis using kept_update assms(1) h' by blast
next
  case False
  with assms(2) have a: "a = length h" and h': "h' = h @ [Some c]"
    by (auto simp: heap_alloc_def Let_def)
  from a have "heap_read h a = None" by (simp add: heap_read_def)
  then have "heap_read h0 a = None" using kept_absent assms(1) by blast
  then show ?thesis using kept_append assms(1) h' by blast
qed

lemma heap_write_kept:
  assumes "kept h0 h" and "heap_read h0 a = None" and "heap_write h a c = Inr h'"
  shows "kept h0 h'"
  using assms by (auto simp: heap_write_def kept_update split: option.splits)

lemma heap_free_kept:
  assumes "kept h0 h" and "\<forall>a. p = Some a \<longrightarrow> heap_read h0 a = None"
    and "heap_free h p = Inr h'"
  shows "kept h0 h'"
  using assms by (auto simp: heap_free_def kept_update split: option.splits)

lemma strdup_kept:
  assumes "kept h0 h" and "strdup pick h p = Inr (a, h')"
  shows "kept h0 h' \<and> heap_read h0 a = None"
  using assms heap_alloc_kept [OF assms(1)]
  by (auto simp: strdup_def split: sum.splits)

lemma toLowerCase_heap_kept:
  assumes "kept h0 h" and "heap_read h0 str = None" and "toLowerCase_heap h str = Inr h'"
  shows "kept h0 h'"
  using assms heap_write_kept [OF assms(1,2)]
  by (auto simp: toLowerCase_heap_def split: sum.splits)

lemma strtolower_heap_kept:
  assumes "kept h0 h" and "strtolower_heap pick h str = Inr (lower, h')"
  shows "kept h0 h' \<and> heap_read h0 lower = None"
proof -
  from assms(2) obtain h1 where d: "strdup pick h str = Inr (lower, h1)"
    and l: "toLowerCase_heap h1 lower = Inr h'"
    by (auto simp: strtolower_heap_def split: sum.splits)
  from strdup_kept [OF assms(1) d] have "kept h0 h1" "heap_read h0 lower = None" by auto
  then show ?thesis using toLowerCase_heap_kept l by blast
qed

lemma foldl_choice_mem:
  "foldl (\<lambda>w i. if P w i then i else w) k js \<in> insert k (set js)"
  by (induction js arbitrary: k) auto

lemma find_worst_heap_less: "find_worst_heap list < MAX_SUGGESTIONS"
proof -
  have "find_worst_heap list \<in> insert 0 (set [1..<MAX_SUGGESTIONS])"
    unfolding find_worst_heap_def by (rule foldl_choice_mem)
  then show ?thesis by (auto simp: MAX_SUGGESTIONS_def)
qed

lemma addSuggestion_heap_kept:
  assumes "kept h0 h" and "\<forall>s \<in> set list. heap_read h0 (word_ptr s) = None"
    and "addSuggestion_heap pick h list w d f = Inr (h', list')"
  shows "kept h0 h' \<and> (\<forall>s \<in> set list'. heap_read h0 (word_ptr s) = None)"
proof (cases "length list < MAX_SUGGESTIONS")
  case True
  with assms(3) obtain p where d: "strdup pick h w = Inr (p, h')"
    and l: "list' = list @ [\<lparr>word_ptr = p, ptr_distance = d, ptr_frequency = f\<rparr>]"
    by (auto simp: addSuggestion_heap_def split: sum.splits)
  from strdup_kept [OF assms(1) d] show ?thesis
    using assms(2) l by auto
next
  case False
  let ?k = "find_worst_heap list"
  have k: "?k < length list"
    using find_worst_heap_less [of list] False by simp
  then have old: "heap_read h0 (word_ptr (list ! ?k)) = None"
    using assms(2) nth_mem by blast
  show ?thesis
  proof (cases "d < ptr_distance (list ! ?k) \<or>
                (d = ptr_distance (list ! ?k) \<and> f > ptr_frequency (list ! ?k))")
    case better: True
    with assms(3) False obtain h1 p where
      fr: "heap_free h (Some (word_ptr (list ! ?k))) = Inr h1"
      and d: "strdup pick h1 w = Inr (p, h')"
      and l: "list' = list[?k := \<lparr>word_ptr = p, ptr_distance = d, ptr_frequency = f\<rparr>]"
      by (auto simp: addSuggestion_heap_def Let_def split: sum.splits)
    have "kept h0 h1"
      using heap_free_kept [OF assms(1) _ fr] old by simp
    from strdup_kept [OF this d] have new: "kept h0 h'" "heap_read h0 p = None" by auto
    have "set list' \<subseteq> insert \<lparr>word_ptr = p, ptr_distance = d, ptr_frequency = f\<rparr> (set list)"
      unfolding l by (rule set_update_subset_insert)
    then show ?thesis using new assms(2) by auto
  next
    case worse: False
    with assms(3) False have "h' = h" "list' = list"
      by (auto simp: addSuggestion_heap_def Let_def)
    then show ?thesis using assms(1,2) by simp
  qed
qed

lemma collectSuggestions_heap_kept:
  "kept h0 h \<Longrightarrow> \<forall>s \<in> set suggestions. heap_read h0 (word_ptr s) = None \<Longrightarrow>
     collectSuggestions_heap pick depth h node suggestions = Inr (h', suggestions') \<Longrightarrow>
     kept h0 h' \<and> (\<forall>s \<in> set suggestions'. heap_read h0 (word_ptr s) = None)"
  and "kept h0 h \<Longrightarrow> \<forall>s \<in> set suggestions. heap_read h0 (word_ptr s) = None \<Longrightarrow>
     collectSuggestions_heap_loop pick depth h parent i suggestions = Inr (h', suggestions') \<Longrightarrow>
     kept h0 h' \<and> (\<forall>s \<in> set suggestions'. heap_read h0 (word_ptr s) = None)"
proof (induction pick depth h node suggestions and pick depth h parent i suggestions
       arbitrary: h' suggestions' and h' suggestions'
       rule: collectSuggestions_heap_collectSuggestions_heap_loop.induct)
  case (1 pick depth h suggestions)
  then show ?case by simp
next
  case (2 pick h node suggestions)
  then show ?case by simp
next
  case (3 pick depth h node suggestions)
  from "3.prems"(3) obtain ch e w f where node: "heap_read h node = Some (Node_obj ch e w f)"
    by (auto split: option.splits obj.splits)
  show ?case
  proof (cases e)
    case False
    then have "collectSuggestions_heap_loop pick depth h node 0 suggestions
                 = Inr (h', suggestions')"
      using "3.prems"(3) node by simp
    then show ?thesis using "3.IH"(2) node False "3.prems"(1,2) by blast
  next
    case True
    with "3.prems"(3) node obtain h1 suggestions1 where
      add: "addSuggestion_heap pick h suggestions w 0 f = Inr (h1, suggestions1)"
      and rest: "collectSuggestions_heap_loop pick depth h1 node 0 suggestions1
                   = Inr (h', suggestions')"
      by (auto split: sum.splits)
    from addSuggestion_heap_kept [OF "3.prems"(1,2) add]
    have k1: "kept h0 h1" "\<forall>s \<in> set suggestions1. heap_read h0 (word_ptr s) = None" by auto
    show ?thesis using "3.IH"(1) node True add k1 rest by blast
  qed
next
  case (4 pick depth h parent i suggestions)
  show ?case
  proof (cases "i < ALPHABET_SIZE")
    case False
    then show ?thesis using "4.prems" by simp
  next
    case True
    with "4.prems"(3) obtain ch e w f where
      node: "heap_read h parent = Some (Node_obj ch e w f)"
      by (auto split: option.splits obj.splits)
    show ?thesis
    proof (cases "ch ! i")
      case None
      then have "collectSuggestions_heap_loop pick depth h parent (i + 1) suggestions
                   = Inr (h', suggestions')"
        using "4.prems"(3) True node by simp
      then show ?thesis using "4.IH"(1) True node None "4.prems"(1,2) by blast
    next
      case (Some child)
      with "4.prems"(3) True node obtain h1 suggestions1 where
        sub: "collectSuggestions_heap pick depth h (Some child) suggestions
                = Inr (h1, suggestions1)"
        and rest: "collectSuggestions_heap_loop pick depth h1 parent (i + 1) suggestions1
                     = Inr (h', suggestions')"
        by (auto split: sum.splits)
      from "4.IH"(2) True node Some "4.prems"(1,2) sub
      have k1: "kept h0 h1" "\<forall>s \<in> set suggestions1. heap_read h0 (word_ptr s) = None"
        by blast+
      show ?thesis using "4.IH"(3) True node Some sub k1 rest by blast
    qed
  qed
qed

lemma free_suggestions_kept:
  "kept h0 h \<Longrightarrow> \<forall>s \<in> set list. heap_read h0 (word_ptr s) = None \<Longrightarrow>
     free_suggestions h list = Inr h' \<Longrightarrow> kept h0 h'"
proof (induction list arbitrary: h)
  case Nil
  then show ?case by simp
next
  case (Cons s list)
  from Cons.prems(3) obtain h1 where fr: "heap_free h (Some (word_ptr s)) = Inr h1"
    and rest: "free_suggestions h1 list = Inr h'"
    by (auto split: sum.splits)
  have "kept h0 h1"
    using heap_free_kept [OF Cons.prems(1) _ fr] Cons.prems(2) by simp
  then show ?case using Cons.IH rest Cons.prems(2) by simp
qed

lemma freeDictionary_kept:
  "kept h0 h \<Longrightarrow> \<forall>p \<in> set ptrs. heap_read h0 p = None \<Longrightarrow>
     freeDictionary h ptrs = Inr h' \<Longrightarrow> kept h0 h'"
proof (induction ptrs arbitrary: h)
  case Nil
  then show ?case by simp
next
  case (Cons p ptrs)
  from Cons.prems(3) obtain h1 where fr: "heap_free h (Some p) = Inr h1"
    and rest: "freeDictionary h1 ptrs = Inr h'"
    by (auto split: sum.splits)
  have "kept h0 h1"
    using heap_free_kept [OF Cons.prems(1) _ fr] Cons.prems(2) by simp
  then show ?case using Cons.IH rest Cons.prems(2) by simp
qed

lemma searchWordsByPrefix_heap_kept:
  assumes "searchWordsByPrefix_heap pick depth h root pfx = Inr (h', out)"
  shows "kept h h'"
proof (cases "root = None \<or> pfx = None")
  case True
  with assms have "h' = h"
    by (auto simp: searchWordsByPrefix_heap_def split: option.splits)
  then show ?thesis by (simp add: kept_refl)
next
  case False
  then obtain root_node where root: "root = Some root_node" and pfx: "pfx \<noteq> None" by auto
  from assms root pfx obtain lowerPrefix h1 letters where
    low: "strtolower_heap pick h pfx = Inr (lowerPrefix, h1)"
    and letters: "read_string h1 (Some lowerPrefix) = Inr letters"
    by (auto simp: searchWordsByPrefix_heap_def split: sum.splits)
  from strtolower_heap_kept [OF kept_refl low]
  have k1: "kept h h1" and fresh: "heap_read h lowerPrefix = None" by auto
  from assms root pfx low letters consider
    (absent) "walk_heap h1 root_node letters = Inr None"
      "heap_free h1 (Some lowerPrefix) = Inr h'"
    | (node) current h2 suggestions h3 where
      "collectSuggestions_heap pick depth h1 (Some current) [] = Inr (h2, suggestions)"
      "free_suggestions h2 (qsort compareSuggestions_heap suggestions) = Inr h3"
      "heap_free h3 (Some lowerPrefix) = Inr h'"
    by (auto simp: searchWordsByPrefix_heap_def Let_def split: sum.splits option.splits)
  then show ?thesis
  proof cases
    case absent
    show ?thesis using heap_free_kept [OF k1 _ absent(2)] fresh by simp
  next
    case node
    from collectSuggestions_heap_kept(1) [OF k1 _ node(1)]
    have k2: "kept h h2" and ptrs: "\<forall>s \<in> set suggestions. heap_read h (word_ptr s) = None"
      by auto
    have "kept h h3"
      using free_suggestions_kept [OF k2 _ node(2)] ptrs by simp
    then show ?thesis using heap_free_kept [OF _ _ node(3)] fresh by simp
  qed
qed

lemma levenshtein_rows_kept:
  "kept h0 h \<Longrightarrow> heap_read h0 prev_p = None \<Longrightarrow> heap_read h0 curr_p = None \<Longrightarrow>
     levenshtein_rows h s t prev_p curr_p rows = Inr (h', p', c') \<Longrightarrow>
     kept h0 h' \<and> heap_read h0 p' = None \<and> heap_read h0 c' = None"
proof (induction rows arbitrary: h prev_p curr_p)
  case Nil
  then show ?case by simp
next
  case (Cons i rows)
  from Cons.prems(4) obtain prev_row curr_row h1 where
    wr: "heap_write h curr_p (Row_obj (fill_row s t i prev_row curr_row)) = Inr h1"
    and rest: "levenshtein_rows h1 s t curr_p prev_p rows = Inr (h', p', c')"
    by (auto split: option.splits obj.splits sum.splits)
  have "kept h0 h1"
    using heap_write_kept [OF Cons.prems(1,3) wr] .
  from Cons.IH [OF this Cons.prems(3,2) rest] show ?case .
qed

lemma malloc_row_kept:
  assumes "kept h0 h" and "malloc_row pick ok h n = (p, h')"
  shows "kept h0 h' \<and> (\<forall>a. p = Some a \<longrightarrow> heap_read h0 a = None)"
  using assms heap_alloc_kept [OF assms(1)]
  by (auto simp: malloc_row_def split: if_splits prod.splits)

lemma levenshteinDistance_heap_kept:
  assumes "kept h0 h"
    and "levenshteinDistance_heap pick prev_ok curr_ok h s t = Inr (h', d)"
  shows "kept h0 h'"
proof -
  from assms(2) obtain s_chars t_chars where
    s: "read_string h (Some s) = Inr s_chars" and t: "read_string h (Some t) = Inr t_chars"
    by (auto simp: levenshteinDistance_heap_def split: sum.splits)
  obtain prev_p h1 where m1: "malloc_row pick prev_ok h (length t_chars + 1) = (prev_p, h1)"
    by (cases "malloc_row pick prev_ok h (length t_chars + 1)")
  obtain curr_p h2 where m2: "malloc_row pick curr_ok h1 (length t_chars + 1) = (curr_p, h2)"
    by (cases "malloc_row pick curr_ok h1 (length t_chars + 1)")
  from malloc_row_kept [OF assms(1) m1]
  have k1: "kept h0 h1" and fp: "\<forall>a. prev_p = Some a \<longrightarrow> heap_read h0 a = None" by auto
  from malloc_row_kept [OF k1 m2]
  have k2: "kept h0 h2" and fc: "\<forall>a. curr_p = Some a \<longrightarrow> heap_read h0 a = None" by auto
  show ?thesis
  proof (cases "\<exists>p c. prev_p = Some p \<and> curr_p = Some c")
    case True
    then obtain p c where pc: "prev_p = Some p" "curr_p = Some c" by blast
    with assms(2) s t m1 m2 obtain h3 h4 p' c' h5 where
      init: "heap_write h2 p (Row_obj (map int [0..<length t_chars + 1])) = Inr h3"
      and rows: "levenshtein_rows h3 s_chars t_chars p c [1..<length s_chars + 1]
                   = Inr (h4, p', c')"
      and f1: "heap_free h4 (Some p') = Inr h5"
      and f2: "heap_free h5 (Some c') = Inr h'"
      by (auto simp: levenshteinDistance_heap_def Let_def
               split: sum.splits option.splits obj.splits)
    have p: "heap_read h0 p = None" and c: "heap_read h0 c = None" using fp fc pc by auto
    have k3: "kept h0 h3" using heap_write_kept [OF k2 p init] .
    from levenshtein_rows_kept [OF k3 p c rows]
    have k4: "kept h0 h4" and p': "heap_read h0 p' = None" and c': "heap_read h0 c' = None"
      by auto
    have "kept h0 h5" using heap_free_kept [OF k4 _ f1] p' by simp
    then show ?thesis using heap_free_kept [OF _ _ f2] c' by simp
  next
    case False
    with assms(2) s t m1 m2 obtain h3 where
      f1: "heap_free h2 prev_p = Inr h3" and f2: "heap_free h3 curr_p = Inr h'"
      by (auto simp: levenshteinDistance_heap_def Let_def
               split: sum.splits option.splits)
    have "kept h0 h3" using heap_free_kept [OF k2 fp f1] .
    then show ?thesis using heap_free_kept [OF _ fc f2] by simp
  qed
qed

lemma suggestSimilarWords_heap_loop_kept:
  "kept h0 h \<Longrightarrow> \<forall>s \<in> set suggestions. heap_read h0 (word_ptr s) = None \<Longrightarrow>
     suggestSimilarWords_heap_loop pick alloc h lowerInput dict idx suggestions
       = Inr (h', suggestions') \<Longrightarrow>
     kept h0 h' \<and> (\<forall>s \<in> set suggestions'. heap_read h0 (word_ptr s) = None)"
proof (induction idx arbitrary: h suggestions)
  case Nil
  then show ?case by simp
next
  case (Cons i idx)
  from Cons.prems(3) obtain lowerDictWord h1 h2 d h3 where
    low: "strtolower_heap pick h (Some (dict ! i)) = Inr (lowerDictWord, h1)"
    and lev: "levenshteinDistance_heap pick (fst (alloc i)) (snd (alloc i)) h1
                lowerInput lowerDictWord = Inr (h2, d)"
    and fr: "heap_free h2 (Some lowerDictWord) = Inr h3"
    by (auto split: sum.splits)
  from strtolower_heap_kept [OF Cons.prems(1) low]
  have k1: "kept h0 h1" and fresh: "heap_read h0 lowerDictWord = None" by auto
  have k2: "kept h0 h2" using levenshteinDistance_heap_kept [OF k1 lev] .
  have k3: "kept h0 h3" using heap_free_kept [OF k2 _ fr] fresh by simp
  show ?case
  proof (cases "d \<le> MAX_LEVENSHTEIN_DISTANCE")
    case True
    with Cons.prems(3) low lev fr obtain h4 suggestions1 where
      add: "addSuggestion_heap pick h3 suggestions (Some (dict ! i)) d 0
              = Inr (h4, suggestions1)"
      and rest: "suggestSimilarWords_heap_loop pick alloc h4 lowerInput dict idx suggestions1
                   = Inr (h', suggestions')"
      by (auto split: sum.splits)
    from addSuggestion_heap_kept [OF k3 Cons.prems(2) add]
    have "kept h0 h4" "\<forall>s \<in> set suggestions1. heap_read h0 (word_ptr s) = None" by auto
    then show ?thesis using Cons.IH rest by blast
  next
    case False
    with Cons.prems(3) low lev fr
    have "suggestSimilarWords_heap_loop pick alloc h3 lowerInput dict idx suggestions
            = Inr (h', suggestions')"
      by simp
    then show ?thesis using Cons.IH k3 Cons.prems(2) by blast
  qed
qed

lemma suggestSimilarWords_heap_kept:
  assumes "suggestSimilarWords_heap pick alloc h input dict = Inr (h', lines)"
  shows "kept h h'"
proof (cases "input = None \<or> length dict = 0")
  case True
  then show ?thesis using assms by (auto simp: suggestSimilarWords_heap_def kept_refl)
next
  case False
  with assms obtain lowerInput h1 h2 suggestions h3 where
    low: "strtolower_heap pick h input = Inr (lowerInput, h1)"
    and loop: "suggestSimilarWords_heap_loop pick alloc h1 lowerInput dict [0..<length dict] []
                 = Inr (h2, suggestions)"
    and fr: "free_suggestions h2 (qsort compareSuggestions_heap suggestions) = Inr h3"
    and fi: "heap_free h3 (Some lowerInput) = Inr h'"
    by (auto simp: suggestSimilarWords_heap_def Let_def split: sum.splits)
  from strtolower_heap_kept [OF kept_refl low]
  have k1: "kept h h1" and fresh: "heap_read h lowerInput = None" by auto
  from suggestSimilarWords_heap_loop_kept [OF k1 _ loop]
  have k2: "kept h h2" and ptrs: "\<forall>s \<in> set suggestions. heap_read h (word_ptr s) = None"
    by auto
  have "kept h h3" using free_suggestions_kept [OF k2 _ fr] ptrs by simp
  then show ?thesis using heap_free_kept [OF _ _ fi] fresh by simp
qed

lemma collectAllWords_heap_kept:
  "kept h0 h \<Longrightarrow> collectAllWords_heap pick depth h node dict = Inr (h', dict') \<Longrightarrow>
     kept h0 h' \<and> set dict' \<subseteq> set dict \<union> {p. heap_read h0 p = None}"
  and "kept h0 h \<Longrightarrow> collectAllWords_heap_loop pick depth h parent i dict = Inr (h', dict') \<Longrightarrow>
     kept h0 h' \<and> set dict' \<subseteq> set dict \<union> {p. heap_read h0 p = None}"
proof (induction pick depth h node dict and pick depth h parent i dict
       arbitrary: h' dict' and h' dict'
       rule: collectAllWords_heap_collectAllWords_heap_loop.induct)
  case (1 pick depth h dict)
  then show ?case by auto
next
  case (2 pick h node dict)
  then show ?case by simp
next
  case (3 pick depth h node dict)
  from "3.prems"(2) obtain ch e w f where node: "heap_read h node = Some (Node_obj ch e w f)"
    by (auto split: option.splits obj.splits)
  show ?case
  proof (cases "e \<and> w \<noteq> None \<and> length dict < MAX_WORDS")
    case False
    then have "collectAllWords_heap_loop pick depth h node 0 dict = Inr (h', dict')"
      using "3.prems"(2) node by auto
    then show ?thesis using "3.IH"(2) node False "3.prems"(1) by blast
  next
    case True
    with "3.prems"(2) node obtain p h1 where
      dup: "strdup pick h w = Inr (p, h1)"
      and rest: "collectAllWords_heap_loop pick depth h1 node 0 (dict @ [p]) = Inr (h', dict')"
      by (auto split: sum.splits)
    from strdup_kept [OF "3.prems"(1) dup]
    have k1: "kept h0 h1" and p: "heap_read h0 p = None"
      by auto
    have "kept h0 h' \<and> set dict' \<subseteq> set (dict @ [p]) \<union> {p. heap_read h0 p = None}"
      using "3.IH"(1) node True dup k1 rest by blast
    then show ?thesis using p by auto
  qed
next
  case (4 pick depth h parent i dict)
  show ?case
  proof (cases "i < ALPHABET_SIZE")
    case False
    then show ?thesis using "4.prems" by auto
  next
    case True
    with "4.prems"(2) obtain ch e w f where
      node: "heap_read h parent = Some (Node_obj ch e w f)"
      by (auto split: option.splits obj.splits)
    show ?thesis
    proof (cases "ch ! i")
      case None
      then have "collectAllWords_heap_loop pick depth h parent (i + 1) dict = Inr (h', dict')"
        using "4.prems"(2) True node by simp
      then show ?thesis using "4.IH"(1) True node None "4.prems"(1) by blast
    next
      case (Some child)
      with "4.prems"(2) True node obtain h1 dict1 where
        sub: "collectAllWords_heap pick depth h (Some child) dict = Inr (h1, dict1)"
        and rest: "collectAllWords_heap_loop pick depth h1 parent (i + 1) dict1
                     = Inr (h', dict')"
        by (auto split: sum.splits)
      from "4.IH"(2) True node Some "4.prems"(1) sub
      have k1: "kept h0 h1" "set dict1 \<subseteq> set dict \<union> {p. heap_read h0 p = None}" by blast+
      have "kept h0 h' \<and> set dict' \<subseteq> set dict1 \<union> {p. heap_read h0 p = None}"
        using "4.IH"(3) True node Some sub k1(1) rest by blast
      then show ?thesis using k1(2) by auto
    qed
  qed
qed

lemma show_all_words_heap_kept:
  assumes "show_all_words_heap pick pointer_value depth h root = Inr (h', lines)"
  shows "kept h h'"
proof -
  from assms obtain h1 allWords where
    col: "collectAllWords_heap pick depth h (Some root) [] = Inr (h1, allWords)"
    and fr: "freeDictionary h1
               (qsort (\<lambda>a b. strcmp (cell_as_string (pointer_value a))
                                    (cell_as_string (pointer_value b))) allWords) = Inr h'"
    by (auto simp: show_all_words_heap_def Let_def split: sum.splits)
  from collectAllWords_heap_kept(1) [OF kept_refl col]
  have k1: "kept h h1" and ptrs: "\<forall>p \<in> set allWords. heap_read h p = None" by auto
  show ?thesis using freeDictionary_kept [OF k1 _ fr] ptrs by simp
qed

text \<open>
  C10. A query leaves the store as it found it. In the heap model: if
  \<open>searchWordsByPrefix\<close>, \<open>collectSuggestions\<close>, \<open>suggestSimilarWords\<close>,
  \<open>collectAllWords\<close> (the dictionary snapshot) or the listing of all words returns,
  then every block that was allocated when it was called (every node with its children,
  end-of-word flag, spelling and frequency, and every string) holds the same object
  afterwards, whichever blocks the allocator hands out. The traversals do write to the
  heap and free blocks of it, but only copies they allocated themselves.
\<close>

theorem queries_keep_every_allocated_block:
  "(\<forall>h' out. searchWordsByPrefix_heap pick depth h root pfx = Inr (h', out) \<longrightarrow>
      (\<forall>a c. heap_read h a = Some c \<longrightarrow> heap_read h' a = Some c)) \<and>
   (\<forall>h' found. collectSuggestions_heap pick depth h node [] = Inr (h', found) \<longrightarrow>
      (\<forall>a c. heap_read h a = Some c \<longrightarrow> heap_read h' a = Some c)) \<and>
   (\<forall>h' lines. suggestSimilarWords_heap pick alloc h input dict = Inr (h', lines) \<longrightarrow>
      (\<forall>a c. heap_read h a = Some c \<longrightarrow> heap_read h' a = Some c)) \<and>
   (\<forall>h' dict'. collectAllWords_heap pick depth h node dict = Inr (h', dict') \<longrightarrow>
      (\<forall>a c. heap_read h a = Some c \<longrightarrow> heap_read h' a = Some c)) \<and>
   (\<forall>h' lines. show_all_words_heap pick pointer_value depth h root_node = Inr (h', lines) \<longrightarrow>
      (\<forall>a c. heap_read h a = Some c \<longrightarrow> heap_read h' a = Some c))"
proof (intro conjI allI impI)
  fix h' out a c
  assume "searchWordsByPrefix_heap pick depth h root pfx = Inr (h', out)"
  then have "kept h h'" by (rule searchWordsByPrefix_heap_kept)
  moreover assume "heap_read h a = Some c"
  ultimately show "heap_read h' a = Some c" by (simp add: kept_def)
next
  fix h' found a c
  assume "collectSuggestions_heap pick depth h node [] = Inr (h', found)"
  then have "kept h h'"
    using collectSuggestions_heap_kept(1) [OF kept_refl, where suggestions = "[]"] by simp
  moreover assume "heap_read h a = Some c"
  ultimately show "heap_read h' a = Some c" by (simp add: kept_def)
next
  fix h' lines a c
  assume "suggestSimilarWords_heap pick alloc h input dict = Inr (h', lines)"
  then have "kept h h'" by (rule suggestSimilarWords_heap_kept)
  moreover assume "heap_read h a = Some c"
  ultimately show "heap_read h' a = Some c" by (simp add: kept_def)
next
  fix h' dict' a c
  assume "collectAllWords_heap pick depth h node dict = Inr (h', dict')"
  then have "kept h h'" using collectAllWords_heap_kept(1) [OF kept_refl] by blast
  moreover assume "heap_read h a = Some c"
  ultimately show "heap_read h' a = Some c" by (simp add: kept_def)
next
  fix h' lines a c
  assume "show_all_words_heap pick pointer_value depth h root_node = Inr (h', lines)"
  then have "kept h h'" by (rule show_all_words_heap_kept)
  moreover assume "heap_read h a = Some c"
  ultimately show "heap_read h' a = Some c" by (simp add: kept_def)
qed

theorem queries_keep_every_allocated_block_witness:
  "\<exists>h h1 h2 h3 h4 h5 dict.
     heap_read example_heap 2 = Some (Node_obj (replicate ALPHABET_SIZE None) False None 0) \<and>
     insertWord_heap first_fit example_heap (Some 2) (Some 0) 5 = Inr h \<and>
     heap_read h 2 = Some (Node_obj ((replicate ALPHABET_SIZE None)[7 := Some 4]) False None 0) \<and>
     heap_read h 5 = Some (Node_obj (replicate ALPHABET_SIZE None) True (Some 6) 5) \<and>
     heap_read h 6 = Some (String_obj ''Hi'') \<and>
     searchWordsByPrefix_heap first_fit 3 h (Some 2) (Some 1)
       = Inr (h1, Some (Suggestions_for [\<lparr>word = ''Hi'', distance = 0, frequency = 5\<rparr>])) \<and>
     heap_read h1 2 = heap_read h 2 \<and> heap_read h1 5 = heap_read h 5 \<and>
     heap_read h1 6 = heap_read h 6 \<and>
     collectSuggestions_heap first_fit 3 h (Some 2) []
       = Inr (h2, [\<lparr>word_ptr = 3, ptr_distance = 0, ptr_frequency = 5\<rparr>]) \<and>
     heap_read h2 3 = Some (String_obj ''Hi'') \<and> heap_read h2 6 = heap_read h 6 \<and>
     collectAllWords_heap first_fit 3 h (Some 2) [] = Inr (h3, dict) \<and> dict = [3] \<and>
     heap_read h3 2 = heap_read h 2 \<and> heap_read h3 5 = heap_read h 5 \<and>
     suggestSimilarWords_heap first_fit enough_memory h3 (Some 1) dict
       = Inr (h4, [\<lparr>word = ''Hi'', distance = 1, frequency = 0\<rparr>]) \<and>
     heap_read h4 3 = heap_read h3 3 \<and> heap_read h4 5 = heap_read h3 5 \<and>
     show_all_words_heap first_fit ascending_addresses 3 h 2 = Inr (h5, [''Hi'']) \<and>
     heap_read h5 5 = heap_read h 5 \<and> heap_read h5 6 = heap_read h 6"
proof -
  have start: "heap_read example_heap 2
                 = Some (Node_obj (replicate ALPHABET_SIZE None) False None 0)"
    by code_simp
  have "(case insertWord_heap first_fit example_heap (Some 2) (Some 0) 5 of
           Inl err \<Rightarrow> None
         | Inr h \<Rightarrow> Some (heap_read h 2, heap_read h 5, heap_read h 6))
        = Some (Some (Node_obj ((replicate ALPHABET_SIZE None)[7 := Some 4]) False None 0),
                Some (Node_obj (replicate ALPHABET_SIZE None) True (Some 6) 5),
                Some (String_obj ''Hi''))"
    by code_simp
  then obtain h where ins: "insertWord_heap first_fit example_heap (Some 2) (Some 0) 5 = Inr h"
    and c2: "heap_read h 2
               = Some (Node_obj ((replicate ALPHABET_SIZE None)[7 := Some 4]) False None 0)"
    and c5: "heap_read h 5 = Some (Node_obj (replicate ALPHABET_SIZE None) True (Some 6) 5)"
    and c6: "heap_read h 6 = Some (String_obj ''Hi'')"
    by (auto split: sum.splits)
  have "(case insertWord_heap first_fit example_heap (Some 2) (Some 0) 5 of
           Inl err \<Rightarrow> None
         | Inr h \<Rightarrow>
             (case searchWordsByPrefix_heap first_fit 3 h (Some 2) (Some 1) of
                Inl err \<Rightarrow> None
              | Inr (h1, out) \<Rightarrow> Some out))
        = Some (Some (Suggestions_for [\<lparr>word = ''Hi'', distance = 0, frequency = 5\<rparr>]))"
    by code_simp
  with ins obtain h1 where search: "searchWordsByPrefix_heap first_fit 3 h (Some 2) (Some 1)
       = Inr (h1, Some (Suggestions_for [\<lparr>word = ''Hi'', distance = 0, frequency = 5\<rparr>]))"
    by (auto split: sum.splits)
  have "(case insertWord_heap first_fit example_heap (Some 2) (Some 0) 5 of
           Inl err \<Rightarrow> None
         | Inr h \<Rightarrow>
             (case collectSuggestions_heap first_fit 3 h (Some 2) [] of
                Inl err \<Rightarrow> None
              | Inr (h2, found) \<Rightarrow> Some (found, heap_read h2 3)))
        = Some ([\<lparr>word_ptr = 3, ptr_distance = 0, ptr_frequency = 5\<rparr>],
                Some (String_obj ''Hi''))"
    by code_simp
  with ins obtain h2 where collect: "collectSuggestions_heap first_fit 3 h (Some 2) []
       = Inr (h2, [\<lparr>word_ptr = 3, ptr_distance = 0, ptr_frequency = 5\<rparr>])"
    and copy: "heap_read h2 3 = Some (String_obj ''Hi'')"
    by (auto split: sum.splits)
  have "(case insertWord_heap first_fit example_heap (Some 2) (Some 0) 5 of
           Inl err \<Rightarrow> None
         | Inr h \<Rightarrow>
             (case collectAllWords_heap first_fit 3 h (Some 2) [] of
                Inl err \<Rightarrow> None
              | Inr (h3, dict) \<Rightarrow>
                  (case suggestSimilarWords_heap first_fit enough_memory h3 (Some 1) dict of
                     Inl err \<Rightarrow> None
                   | Inr (h4, lines) \<Rightarrow>
                       (case print_words h3 dict of
                          Inl err \<Rightarrow> None
                        | Inr listed \<Rightarrow>
                            (case freeDictionary h3 dict of
                               Inl err \<Rightarrow> None
                             | Inr h5 \<Rightarrow> Some (dict, lines, heap_read h3 3, listed))))))
        = Some ([3], [\<lparr>word = ''Hi'', distance = 1, frequency = 0\<rparr>],
                Some (String_obj ''Hi''), [''Hi''])"
    by code_simp
  with ins obtain h3 h4 h5 where
    snapshot: "collectAllWords_heap first_fit 3 h (Some 2) [] = Inr (h3, [3])"
    and suggest: "suggestSimilarWords_heap first_fit enough_memory h3 (Some 1) [3]
                    = Inr (h4, [\<lparr>word = ''Hi'', distance = 1, frequency = 0\<rparr>])"
    and c3: "heap_read h3 3 = Some (String_obj ''Hi'')"
    and printed: "print_words h3 [3] = Inr [''Hi'']"
    and freed: "freeDictionary h3 [3] = Inr h5"
    by (auto split: sum.splits)
  have listing: "show_all_words_heap first_fit ascending_addresses 3 h 2 = Inr (h5, [''Hi''])"
    using printed freed by (simp add: show_all_words_heap_def snapshot qsort_def)
  from queries_keep_every_allocated_block
         [of first_fit 3 h "Some 2" "Some 1"] search c2 c5 c6
  have s: "heap_read h1 2 = heap_read h 2" "heap_read h1 5 = heap_read h 5"
    "heap_read h1 6 = heap_read h 6"
    by simp_all
  from queries_keep_every_allocated_block
         [of first_fit 3 h _ _ "Some 2"] collect c6
  have c: "heap_read h2 6 = heap_read h 6"
    by simp
  from queries_keep_every_allocated_block
         [of first_fit 3 h _ _ "Some 2" _ _ "[]"] snapshot c2 c5
  have d: "heap_read h3 2 = heap_read h 2" "heap_read h3 5 = heap_read h 5"
    by simp_all
  then have c5': "heap_read h3 5 = Some (Node_obj (replicate ALPHABET_SIZE None) True (Some 6) 5)"
    using c5 by simp
  from queries_keep_every_allocated_block
         [of first_fit _ h3 _ _ _ enough_memory "Some 1" "[3]"] suggest c3 c5'
  have f: "heap_read h4 3 = heap_read h3 3" "heap_read h4 5 = heap_read h3 5"
    by simp_all
  from queries_keep_every_allocated_block
         [of first_fit 3 h _ _ _ _ _ _ ascending_addresses 2] listing c5 c6
  have l: "heap_read h5 5 = heap_read h 5" "heap_read h5 6 = heap_read h 6"
    by simp_all
  from start ins c2 c5 c6 search s collect copy c snapshot d suggest f listing l
  show ?thesis by blast
qed


end
